theory Spec2Isabelle
  imports Complex_Main "HOL-Library.Log_Nat" "HOL-Library.Sublist"
begin

section \<open>IEEE 754 double precision\<close>

text \<open>
  A JavaScript \<open>number\<close> is an IEEE 754 binary64 value, and every arithmetic operator
  rounds the exact result to the nearest such value, ties to the even significand.
  \<open>rne\<close> rounds a real to the nearest integer, ties to even. \<open>binade x\<close> is the
  exponent \<open>k\<close> with \<open>2^k \<le> |x| < 2^(k+1)\<close>, and \<open>-1022\<close> for the subnormal range
  and zero. A double of that exponent is a multiple of \<open>ulp x = 2^(k-52)\<close>, so
  \<open>round_real x\<close> is the double nearest to \<open>x\<close> when the exponent range is
  unbounded above; the overflow to an infinity is applied in \<open>round_double\<close> below.
\<close>

definition rne :: "real \<Rightarrow> int" where
  "rne x =
     (let f = \<lfloor>x\<rfloor>; r = x - of_int f
      in if r < 1 / 2 then f else if 1 / 2 < r then f + 1 else if even f then f else f + 1)"

definition binade :: "real \<Rightarrow> int" where
  "binade x =
     (let a = \<bar>x\<bar>
      in if a < 2 powi (- 1022) then - 1022
         else if 1 \<le> a then bitlen \<lfloor>a\<rfloor> - 1
         else - bitlen (\<lceil>1 / a\<rceil> - 1))"

definition ulp :: "real \<Rightarrow> real" where
  "ulp x = 2 powi (binade x - 52)"

definition round_real :: "real \<Rightarrow> real" where
  "round_real x = of_int (rne (x / ulp x)) * ulp x"

section \<open>JavaScript values\<close>

text \<open>
  A \<open>number\<close> is a finite value other than the negative zero (\<open>Num\<close>, which holds
  the positive zero), the negative zero, one of the two infinities, or NaN. The props
  and the timestamps that enter a computation are taken as given; every sum, difference,
  product and quotient is rounded to a double, overflows to an infinity from \<open>2^1024\<close>
  on, and keeps the sign of a zero result. NaN is contagious, comparisons with NaN are
  false, \<open>\<infinity> - \<infinity>\<close>, \<open>0 * \<infinity>\<close>, \<open>0 / 0\<close> and \<open>\<infinity> / \<infinity>\<close> are NaN.
\<close>

datatype jsnum = Num real | NegZero | PosInf | NegInf | NaN

definition overflow_threshold :: real where
  "overflow_threshold = 2 ^ 1024"

text \<open>
  The double that an operator returns for the exact finite result \<open>r\<close>; \<open>negative\<close> is
  the sign that a zero result takes.
\<close>

definition round_double :: "bool \<Rightarrow> real \<Rightarrow> jsnum" where
  "round_double negative r =
     (let v = round_real r
      in if v = 0 then (if negative then NegZero else Num 0)
         else if overflow_threshold \<le> v then PosInf
         else if v \<le> - overflow_threshold then NegInf
         else Num v)"

text \<open>The reals that are finite doubles.\<close>

definition is_double :: "real \<Rightarrow> bool" where
  "is_double x = (round_real x = x \<and> \<bar>x\<bar> < overflow_threshold)"

definition sign_bit :: "jsnum \<Rightarrow> bool" where
  "sign_bit a = (case a of Num r \<Rightarrow> r < 0 | NegZero \<Rightarrow> True | PosInf \<Rightarrow> False
                 | NegInf \<Rightarrow> True | NaN \<Rightarrow> False)"

definition finite_part :: "jsnum \<Rightarrow> real" where
  "finite_part a = (case a of Num r \<Rightarrow> r | _ \<Rightarrow> 0)"

definition is_zero :: "jsnum \<Rightarrow> bool" where
  "is_zero a = (a = Num 0 \<or> a = NegZero)"

definition is_inf :: "jsnum \<Rightarrow> bool" where
  "is_inf a = (a = PosInf \<or> a = NegInf)"

definition signed_inf :: "bool \<Rightarrow> jsnum" where
  "signed_inf negative = (if negative then NegInf else PosInf)"

definition signed_zero :: "bool \<Rightarrow> jsnum" where
  "signed_zero negative = (if negative then NegZero else Num 0)"

fun js_neg :: "jsnum \<Rightarrow> jsnum" where
  "js_neg (Num a) = (if a = 0 then NegZero else Num (- a))"
| "js_neg NegZero = Num 0"
| "js_neg PosInf = NegInf"
| "js_neg NegInf = PosInf"
| "js_neg NaN = NaN"

text \<open>
  \<open>a + b\<close>: an exact sum of zero is \<open>-0\<close> only when both operands are \<open>-0\<close>; any
  other sum is rounded.
\<close>

definition js_add :: "jsnum \<Rightarrow> jsnum \<Rightarrow> jsnum" where
  "js_add a b =
     (if a = NaN \<or> b = NaN then NaN
      else if is_inf a \<and> is_inf b then (if a = b then a else NaN)
      else if is_inf a then a
      else if is_inf b then b
      else (let r = finite_part a + finite_part b
            in if r = 0 then (if a = NegZero \<and> b = NegZero then NegZero else Num 0)
               else round_double (r < 0) r))"

definition js_sub :: "jsnum \<Rightarrow> jsnum \<Rightarrow> jsnum" where
  "js_sub a b = js_add a (js_neg b)"

text \<open>
  \<open>a * b\<close> and \<open>a / b\<close>. The sign of the result is the exclusive or of the operands'
  signs, also for a zero or an infinite result; \<open>rounding\<close> is what is done with the
  exact finite product or quotient.
\<close>

definition mul_with :: "(bool \<Rightarrow> real \<Rightarrow> jsnum) \<Rightarrow> jsnum \<Rightarrow> jsnum \<Rightarrow> jsnum" where
  "mul_with rounding a b =
     (let negative = (sign_bit a \<noteq> sign_bit b)
      in if a = NaN \<or> b = NaN then NaN
         else if (is_inf a \<and> is_zero b) \<or> (is_zero a \<and> is_inf b) then NaN
         else if is_inf a \<or> is_inf b then signed_inf negative
         else rounding negative (finite_part a * finite_part b))"

definition div_with :: "(bool \<Rightarrow> real \<Rightarrow> jsnum) \<Rightarrow> jsnum \<Rightarrow> jsnum \<Rightarrow> jsnum" where
  "div_with rounding a b =
     (let negative = (sign_bit a \<noteq> sign_bit b)
      in if a = NaN \<or> b = NaN then NaN
         else if (is_inf a \<and> is_inf b) \<or> (is_zero a \<and> is_zero b) then NaN
         else if is_inf a then signed_inf negative
         else if is_inf b then signed_zero negative
         else if is_zero b then signed_inf negative
         else rounding negative (finite_part a / finite_part b))"

definition js_mul :: "jsnum \<Rightarrow> jsnum \<Rightarrow> jsnum" where
  "js_mul = mul_with round_double"

definition js_div :: "jsnum \<Rightarrow> jsnum \<Rightarrow> jsnum" where
  "js_div = div_with round_double"

text \<open>
  The same two operators with the finite result left unrounded (and a zero result read
  as \<open>+0\<close>). They are used for the pointer geometry of the tilt handler only, where
  the properties proved are bounds between doubles and the value at the centre: rounding
  is monotone and maps a double to itself, so a bound \<open>- m \<le> r \<le> m\<close> on the exact
  result holds for the rounded one, and an exact result of zero is rounded to a zero.
\<close>

definition exact_mul :: "jsnum \<Rightarrow> jsnum \<Rightarrow> jsnum" where
  "exact_mul = mul_with (\<lambda>negative r. Num r)"

definition exact_div :: "jsnum \<Rightarrow> jsnum \<Rightarrow> jsnum" where
  "exact_div = div_with (\<lambda>negative r. Num r)"

text \<open>The comparison \<open>a < b\<close> and \<open>a <= b\<close> of the language: false when an operand is NaN.\<close>

definition js_lt :: "jsnum \<Rightarrow> jsnum \<Rightarrow> bool" where
  "js_lt a b =
     (if a = NaN \<or> b = NaN then False
      else if a = NegInf then b \<noteq> NegInf
      else if b = PosInf then a \<noteq> PosInf
      else if a = PosInf \<or> b = NegInf then False
      else finite_part a < finite_part b)"

definition js_le :: "jsnum \<Rightarrow> jsnum \<Rightarrow> bool" where
  "js_le a b =
     (if a = NaN \<or> b = NaN then False
      else if a = NegInf \<or> b = PosInf then True
      else if a = PosInf \<or> b = NegInf then False
      else finite_part a \<le> finite_part b)"

text \<open>
  \<open>Math.min\<close>: NaN when an argument is NaN, the lower argument otherwise, \<open>-0\<close>
  counting as lower than \<open>+0\<close>.
\<close>

definition js_min :: "jsnum \<Rightarrow> jsnum \<Rightarrow> jsnum" where
  "js_min a b =
     (if a = NaN \<or> b = NaN then NaN
      else if js_lt a b then a
      else if js_lt b a then b
      else if a = NegZero then a else b)"

text \<open>\<open>Math.floor\<close>: the zeros, the infinities and NaN are returned as they are.\<close>

fun js_floor :: "jsnum \<Rightarrow> jsnum" where
  "js_floor (Num a) = Num (of_int \<lfloor>a\<rfloor>)"
| "js_floor NegZero = NegZero"
| "js_floor PosInf = PosInf"
| "js_floor NegInf = NegInf"
| "js_floor NaN = NaN"

text \<open>The exceptions the modelled code can raise.\<close>

datatype js_error = Error string | TypeError string

section \<open>AnimatedCounter (animations/AnimatedCounter.tsx)\<close>

text \<open>
  The props \<open>end\<close> and \<open>duration\<close> (the latter defaults to 2000 at the call).
  \<open>suffix\<close> and \<open>className\<close> only decorate the rendered span.
\<close>

record AnimatedCounterProps =
  end' :: jsnum
  duration :: jsnum

text \<open>
  What an \<open>updateCounter\<close> closure captures: \<open>startTime\<close> (\<open>Date.now()\<close>, whole
  milliseconds) and \<open>endTime = startTime + duration\<close>.
\<close>

record update_closure =
  startTime :: int
  endTime :: jsnum

text \<open>
  One component instance with what it has registered with the platform: the two pieces
  of React state, whether the component is mounted, its connected IntersectionObserver
  if it has one (given by the value of \<open>hasAnimated\<close> that the observer's callback
  captured when the effect created it), and the \<open>updateCounter\<close> callbacks that wait
  for the next animation frame, in the order of their requests.
\<close>

record counter_instance =
  count :: jsnum
  hasAnimated :: bool
  counter_mounted :: bool
  observer :: "bool option"
  frame_requests :: "update_closure list"

definition counter_effect :: "counter_instance \<Rightarrow> counter_instance" where
  \<comment> \<open>the effect with dependency \<open>[hasAnimated]\<close>: the cleanup of its previous run
      disconnects that run's observer; the new run returns early when \<open>hasAnimated\<close>
      is true (the span is there once the component has rendered), and otherwise
      creates an observer whose callback closes over the current \<open>hasAnimated\<close>\<close>
  "counter_effect inst =
     (if hasAnimated inst then inst\<lparr>observer := None\<rparr>
      else inst\<lparr>observer := Some (hasAnimated inst)\<rparr>)"

definition counter_mount :: "counter_instance" where
  \<comment> \<open>\<open>useState(0)\<close>, \<open>useState(false)\<close>, then the first run of the effect\<close>
  "counter_mount =
     counter_effect
       \<lparr>count = Num 0, hasAnimated = False, counter_mounted = True, observer = None,
        frame_requests = []\<rparr>"

definition setCount :: "jsnum \<Rightarrow> counter_instance \<Rightarrow> counter_instance" where
  \<comment> \<open>React drops a state update of a component that is no longer mounted\<close>
  "setCount v inst = (if counter_mounted inst then inst\<lparr>count := v\<rparr> else inst)"

definition setHasAnimated :: "bool \<Rightarrow> counter_instance \<Rightarrow> counter_instance" where
  "setHasAnimated v inst = (if counter_mounted inst then inst\<lparr>hasAnimated := v\<rparr> else inst)"

definition requestAnimationFrame :: "update_closure \<Rightarrow> counter_instance \<Rightarrow> counter_instance" where
  "requestAnimationFrame c inst = inst\<lparr>frame_requests := frame_requests inst @ [c]\<rparr>"

definition easeOutQuad :: "jsnum \<Rightarrow> jsnum" where
  "easeOutQuad t = js_mul t (js_sub (Num 2) t)"

definition updateCounter ::
  "AnimatedCounterProps \<Rightarrow> update_closure \<Rightarrow> int \<Rightarrow> counter_instance \<Rightarrow> counter_instance" where
  \<comment> \<open>\<open>now\<close> is what \<open>Date.now()\<close> returns in this frame\<close>
  "updateCounter p c now inst =
     (let progress = js_min (js_div (js_sub (Num (of_int now)) (Num (of_int (startTime c))))
                                    (duration p)) (Num 1);
          easedProgress = easeOutQuad progress;
          currentCount = js_floor (js_mul easedProgress (end' p));
          inst1 = setCount currentCount inst
      in if js_lt (Num (of_int now)) (endTime c)
         then requestAnimationFrame c inst1
         else setCount (end' p) inst1)"

definition animateCounter ::
  "AnimatedCounterProps \<Rightarrow> int \<Rightarrow> counter_instance \<Rightarrow> counter_instance" where
  \<comment> \<open>\<open>now\<close> is what \<open>Date.now()\<close> returns at the call\<close>
  "animateCounter p now inst =
     requestAnimationFrame
       \<lparr>startTime = now, endTime = js_add (Num (of_int now)) (duration p)\<rparr> inst"

text \<open>
  The body of the observer's \<open>forEach\<close>, for one entry (its \<open>isIntersecting\<close>). The
  \<open>hasAnimated\<close> it tests is the one that the callback captured, not the state.
\<close>

definition observer_entry ::
  "AnimatedCounterProps \<Rightarrow> int \<Rightarrow> bool \<Rightarrow> counter_instance \<Rightarrow> bool \<Rightarrow> counter_instance" where
  "observer_entry p now captured_hasAnimated inst isIntersecting =
     (if isIntersecting \<and> \<not> captured_hasAnimated
      then animateCounter p now (setHasAnimated True inst)
      else inst)"

definition intersection_callback ::
  "AnimatedCounterProps \<Rightarrow> int \<Rightarrow> bool list \<Rightarrow> counter_instance \<Rightarrow> counter_instance" where
  \<comment> \<open>one delivery of entries to the connected observer's callback, if there is one;
      when the callback has changed \<open>hasAnimated\<close>, the component renders and the
      effect runs again before the next event\<close>
  "intersection_callback p now entries inst =
     (case observer inst of
        None \<Rightarrow> inst
      | Some captured_hasAnimated \<Rightarrow>
          (let inst1 = foldl (observer_entry p now captured_hasAnimated) inst entries
           in if hasAnimated inst1 \<noteq> hasAnimated inst then counter_effect inst1 else inst1))"

definition animation_frame ::
  "AnimatedCounterProps \<Rightarrow> int \<Rightarrow> counter_instance \<Rightarrow> counter_instance" where
  \<comment> \<open>the browser runs the callbacks requested before this frame, in order; a callback
      requested during the frame waits for the next one\<close>
  "animation_frame p now inst =
     foldl (\<lambda>i c. updateCounter p c now i) (inst\<lparr>frame_requests := []\<rparr>) (frame_requests inst)"

definition counter_unmount :: "counter_instance \<Rightarrow> counter_instance" where
  \<comment> \<open>the only cleanup is \<open>observer.disconnect()\<close>; nothing cancels a requested frame\<close>
  "counter_unmount inst = inst\<lparr>counter_mounted := False, observer := None\<rparr>"

fun displayed_counts ::
  "AnimatedCounterProps \<Rightarrow> counter_instance \<Rightarrow> int list \<Rightarrow> jsnum list" where
  "displayed_counts p inst [] = []"
| "displayed_counts p inst (t # ts) =
     (let inst' = animation_frame p t inst in count inst' # displayed_counts p inst' ts)"

fun run_frames ::
  "AnimatedCounterProps \<Rightarrow> counter_instance \<Rightarrow> int list \<Rightarrow> counter_instance" where
  "run_frames p inst [] = inst"
| "run_frames p inst (t # ts) = run_frames p (animation_frame p t inst) ts"

text \<open>
  The count that one run of \<open>updateCounter\<close> leaves: the floored value while the
  frame is requested again, \<open>end\<close> once it is not.
\<close>

definition frame_value :: "AnimatedCounterProps \<Rightarrow> update_closure \<Rightarrow> int \<Rightarrow> jsnum" where
  "frame_value p c t =
     (if js_lt (Num (of_int t)) (endTime c)
      then js_floor (js_mul (easeOutQuad (js_min (js_div (js_sub (Num (of_int t))
             (Num (of_int (startTime c)))) (duration p)) (Num 1))) (end' p))
      else end' p)"



text \<open>
  The values inside one run of \<open>updateCounter\<close>, as reals, for a finite duration
  \<open>d > 0\<close>, a finite end value \<open>e \<ge> 0\<close> and \<open>n = now - startTime \<ge> 0\<close> whole
  milliseconds: \<open>progress\<close> is the rounded quotient capped at 1, \<open>easedProgress\<close>
  the rounded product of \<open>progress\<close> and the rounded difference \<open>2 - progress\<close>,
  and the count is the floor of the rounded product with \<open>end\<close>. The lemmas
  \<open>js_progress\<close>, \<open>js_easeOutQuad\<close>, \<open>js_count\<close> and \<open>frame_value_running\<close> below
  show that these are the values of the operators above. \<open>end_time\<close> is \<open>endTime\<close>.
\<close>

definition progress_value :: "real \<Rightarrow> int \<Rightarrow> real" where
  "progress_value d n = min (round_real (of_int n / d)) 1"

definition eased_value :: "real \<Rightarrow> real" where
  "eased_value p = round_real (p * round_real (2 - p))"

definition end_time :: "int \<Rightarrow> real \<Rightarrow> jsnum" where
  "end_time s d = js_add (Num (of_int s)) (Num d)"

definition running_count :: "real \<Rightarrow> real \<Rightarrow> int \<Rightarrow> int" where
  "running_count e d n = \<lfloor>round_real (eased_value (progress_value d n) * e)\<rfloor>"

section \<open>useTilt (shared/hooks/use-tilt.ts)\<close>

text \<open>The options after the defaults (15, 1.05, 300, true) have been filled in.\<close>

record TiltOptions =
  max' :: jsnum
  scale :: jsnum
  speed :: jsnum
  glare :: bool

text \<open>
  What the handlers read: the element's bounding rectangle and the pointer's client
  coordinates, finite numbers that the platform supplies.
\<close>

record DOMRect =
  rect_left :: real
  rect_top :: real
  rect_width :: real
  rect_height :: real

record MouseEvent =
  clientX :: real
  clientY :: real

text \<open>
  The transform string \<open>perspective(1000px) rotateX(..deg) rotateY(..deg) scale(..)\<close>
  by its three numbers, and the part of the element that the hook writes or registers.
\<close>

record tilt_transform =
  rotateX :: jsnum
  rotateY :: jsnum
  scale_factor :: jsnum

record tilt_element =
  style_transform :: "tilt_transform option"
  style_transition :: "jsnum option"
  glare_x :: "jsnum option"
  glare_y :: "jsnum option"
  mousemove_listener :: bool
  mouseleave_listener :: bool

text \<open>
  The mouse-move handler. The offsets from the rectangle's corner, the two centres and
  the two angles are computed without the rounding of the doubles (\<open>exact_div\<close>,
  \<open>exact_mul\<close>); the special values of \<open>max\<close> and a rectangle of no width or height
  follow the language.
\<close>

definition handleMouseMove ::
  "TiltOptions \<Rightarrow> DOMRect \<Rightarrow> MouseEvent \<Rightarrow> tilt_element \<Rightarrow> tilt_element" where
  "handleMouseMove opts rect e element =
     (let x = clientX e - rect_left rect;
          y = clientY e - rect_top rect;
          centerX = rect_width rect / 2;
          centerY = rect_height rect / 2;
          rotX = exact_mul (exact_div (Num (y - centerY)) (Num centerY)) (js_neg (max' opts));
          rotY = exact_mul (exact_div (Num (x - centerX)) (Num centerX)) (max' opts);
          element1 = element\<lparr>style_transform :=
            Some \<lparr>rotateX = rotX, rotateY = rotY, scale_factor = scale opts\<rparr>\<rparr>
      in if glare opts
         then element1
           \<lparr>glare_x := Some (exact_mul (exact_div (Num x) (Num (rect_width rect))) (Num 100)),
            glare_y := Some (exact_mul (exact_div (Num y) (Num (rect_height rect))) (Num 100))\<rparr>
         else element1)"

definition handleMouseLeave :: "TiltOptions \<Rightarrow> tilt_element \<Rightarrow> tilt_element" where
  "handleMouseLeave opts element =
     (let element1 = element\<lparr>style_transform :=
            Some \<lparr>rotateX = Num 0, rotateY = Num 0, scale_factor = Num 1\<rparr>\<rparr>
      in if glare opts
         then element1\<lparr>glare_x := Some (Num 50), glare_y := Some (Num 50)\<rparr>
         else element1)"

definition useTilt_effect ::
  "TiltOptions \<Rightarrow> bool \<Rightarrow> tilt_element option \<Rightarrow> tilt_element option" where
  \<comment> \<open>the effect body; the first argument after the options is the reduced-motion
      preference, the second is \<open>ref.current\<close>\<close>
  "useTilt_effect opts prefersReducedMotion current =
     (case current of
        None \<Rightarrow> None
      | Some element \<Rightarrow>
          if prefersReducedMotion then Some element
          else Some (element\<lparr>style_transition := Some (speed opts),
                             mousemove_listener := True, mouseleave_listener := True\<rparr>))"

definition useTilt_cleanup :: "tilt_element \<Rightarrow> tilt_element" where
  "useTilt_cleanup element = element\<lparr>mousemove_listener := False, mouseleave_listener := False\<rparr>"

definition dispatch_mousemove ::
  "TiltOptions \<Rightarrow> DOMRect \<Rightarrow> MouseEvent \<Rightarrow> tilt_element \<Rightarrow> tilt_element" where
  "dispatch_mousemove opts rect e element =
     (if mousemove_listener element then handleMouseMove opts rect e element else element)"

definition dispatch_mouseleave :: "TiltOptions \<Rightarrow> tilt_element \<Rightarrow> tilt_element" where
  "dispatch_mouseleave opts element =
     (if mouseleave_listener element then handleMouseLeave opts element else element)"

section \<open>TypingAnimation (animations/TypingAnimation.tsx)\<close>

record TypingAnimationProps =
  texts :: "string list"
  typingSpeed :: jsnum
  deletingSpeed :: jsnum
  pauseDuration :: jsnum

text \<open>The three callbacks that the effect hands to \<open>setTimeout\<close>.\<close>

datatype timer_callback = PauseTimeout | TypingTimeout | DeletingTimeout

text \<open>
  One component instance: the four pieces of React state, the timer that the last run of
  the effect has registered and not yet cleared (callback and delay), and whether the
  component is mounted. \<open>currentTextIndex\<close> is a number; \<open>None\<close> stands for NaN,
  which \<open>% texts.length\<close> yields for an empty list.
\<close>

record typing_instance =
  currentTextIndex :: "nat option"
  currentText :: string
  isDeleting :: bool
  isPaused :: bool
  pending_timeout :: "(timer_callback \<times> jsnum) option"
  typing_mounted :: bool

definition typing_initial :: typing_instance where
  "typing_initial =
     \<lparr>currentTextIndex = Some 0, currentText = [], isDeleting = False, isPaused = False,
      pending_timeout = None, typing_mounted = True\<rparr>"

definition texts_at :: "string list \<Rightarrow> nat option \<Rightarrow> string option" where
  \<comment> \<open>\<open>texts[i]\<close>: \<open>undefined\<close> (here \<open>None\<close>) outside the list\<close>
  "texts_at ts i =
     (case i of None \<Rightarrow> None
      | Some k \<Rightarrow> if k < length ts then Some (ts ! k) else None)"

definition next_index :: "string list \<Rightarrow> nat option \<Rightarrow> nat option" where
  \<comment> \<open>\<open>(prevIndex + 1) % texts.length\<close>\<close>
  "next_index ts i =
     (case i of None \<Rightarrow> None
      | Some k \<Rightarrow> if length ts = 0 then None else Some ((k + 1) mod length ts))"

text \<open>What one run of the effect body does, by its five branches in the source's order.\<close>

datatype effect_action = Schedule timer_callback jsnum | StartPause | NextText | Nothing

definition typing_effect :: "TypingAnimationProps \<Rightarrow> typing_instance \<Rightarrow> effect_action" where
  "typing_effect p inst =
     (let currentFullText = texts_at (texts p) (currentTextIndex inst)
      in if isPaused inst then Schedule PauseTimeout (pauseDuration p)
         else if \<not> isDeleting inst \<and> Some (currentText inst) \<noteq> currentFullText
           then Schedule TypingTimeout (typingSpeed p)
         else if \<not> isDeleting inst \<and> Some (currentText inst) = currentFullText
           then StartPause
         else if isDeleting inst \<and> currentText inst \<noteq> []
           then Schedule DeletingTimeout (deletingSpeed p)
         else if isDeleting inst \<and> currentText inst = []
           then NextText
         else Nothing)"

definition run_effect :: "TypingAnimationProps \<Rightarrow> typing_instance \<Rightarrow> typing_instance" where
  "run_effect p inst =
     (case typing_effect p inst of
        Schedule cb delay \<Rightarrow> inst\<lparr>pending_timeout := Some (cb, delay)\<rparr>
      | StartPause \<Rightarrow> inst\<lparr>isPaused := True\<rparr>
      | NextText \<Rightarrow>
          inst\<lparr>isDeleting := False,
               currentTextIndex := next_index (texts p) (currentTextIndex inst)\<rparr>
      | Nothing \<Rightarrow> inst)"

text \<open>
  A timer callback. It reads the values of the render whose effect registered it; every
  later change of state or props clears that timer, so these are the instance's values.
  \<open>currentFullText.slice\<close> on \<open>undefined\<close> throws a TypeError.
\<close>

definition run_callback ::
  "TypingAnimationProps \<Rightarrow> typing_instance \<Rightarrow> timer_callback \<Rightarrow> js_error + typing_instance" where
  "run_callback p inst cb =
     (case cb of
        PauseTimeout \<Rightarrow> Inr (inst\<lparr>isPaused := False, isDeleting := True\<rparr>)
      | TypingTimeout \<Rightarrow>
          (case texts_at (texts p) (currentTextIndex inst) of
             None \<Rightarrow> Inl (TypeError ''Cannot read properties of undefined (reading 'slice')'')
           | Some currentFullText \<Rightarrow>
               Inr (inst\<lparr>currentText := take (length (currentText inst) + 1) currentFullText\<rparr>))
      | DeletingTimeout \<Rightarrow>
          Inr (inst\<lparr>currentText := take (length (currentText inst) - 1) (currentText inst)\<rparr>))"

text \<open>
  One transition of a mounted instance: the pending timer fires, or, when none is
  pending, the effect of the last render runs. Nothing happens to an unmounted one.
\<close>

definition typing_step ::
  "TypingAnimationProps \<Rightarrow> typing_instance \<Rightarrow> js_error + typing_instance" where
  "typing_step p inst =
     (if \<not> typing_mounted inst then Inr inst
      else case pending_timeout inst of
             Some (cb, delay) \<Rightarrow> run_callback p (inst\<lparr>pending_timeout := None\<rparr>) cb
           | None \<Rightarrow> Inr (run_effect p inst))"

fun typing_run :: "TypingAnimationProps \<Rightarrow> nat \<Rightarrow> js_error + typing_instance" where
  "typing_run p 0 = Inr typing_initial"
| "typing_run p (Suc n) =
     (case typing_run p n of Inl err \<Rightarrow> Inl err | Inr inst \<Rightarrow> typing_step p inst)"

definition typing_unmount :: "typing_instance \<Rightarrow> typing_instance" where
  \<comment> \<open>the cleanup of the last effect run: \<open>clearTimeout\<close> of the timer it registered\<close>
  "typing_unmount inst = inst\<lparr>pending_timeout := None, typing_mounted := False\<rparr>"

text \<open>
  The invariant of the running animator: it is mounted, its index is in range, the
  rendered text is a prefix of the text at that index, and a registered timer is the
  one that the effect registers for the current state.
\<close>

definition typing_inv :: "TypingAnimationProps \<Rightarrow> typing_instance \<Rightarrow> bool" where
  "typing_inv p inst =
     (typing_mounted inst \<and>
      (case currentTextIndex inst of
         None \<Rightarrow> False
       | Some i \<Rightarrow> i < length (texts p) \<and> prefix (currentText inst) (texts p ! i)) \<and>
      (case pending_timeout inst of
         None \<Rightarrow> True
       | Some (cb, delay) \<Rightarrow> typing_effect p inst = Schedule cb delay))"

section \<open>ThemeProvider and useTheme (shared/hooks/use-theme.tsx)\<close>

datatype Theme = Light | Dark

fun theme_name :: "Theme \<Rightarrow> string" where
  "theme_name Light = ''light''"
| "theme_name Dark = ''dark''"

text \<open>
  The platform as the provider uses it: the key-value store \<open>localStorage\<close>, the
  \<open>(prefers-color-scheme: dark)\<close> media query and the class list of the root element.
\<close>

record browser =
  localStorage :: "string \<rightharpoonup> string"
  prefers_dark :: bool
  root_classes :: "string set"

text \<open>
  The provider's state. \<open>theme\<close> is typed \<open>Theme\<close> in the source, but the stored
  string is cast, not checked, so at run time it is any string.
\<close>

record provider_state =
  theme :: string
  mounted :: bool

definition provider_initial :: provider_state where
  "provider_initial = \<lparr>theme = ''light'', mounted = False\<rparr>"

definition applyTheme :: "string \<Rightarrow> browser \<Rightarrow> browser" where
  "applyTheme newTheme b =
     (if newTheme = ''dark'' then b\<lparr>root_classes := insert ''dark'' (root_classes b)\<rparr>
      else b\<lparr>root_classes := root_classes b - {''dark''}\<rparr>)"

definition provider_init :: "browser \<times> provider_state \<Rightarrow> browser \<times> provider_state" where
  \<comment> \<open>the mount effect; \<open>if (stored)\<close> is false for \<open>null\<close> and for the empty string\<close>
  "provider_init bs =
     (let b = fst bs; st = (snd bs)\<lparr>mounted := True\<rparr>
      in case localStorage b ''theme'' of
           Some stored \<Rightarrow>
             if stored \<noteq> [] then (applyTheme stored b, st\<lparr>theme := stored\<rparr>)
             else (let initialTheme = (if prefers_dark b then ''dark'' else ''light'')
                   in (applyTheme initialTheme b, st\<lparr>theme := initialTheme\<rparr>))
         | None \<Rightarrow>
             (let initialTheme = (if prefers_dark b then ''dark'' else ''light'')
              in (applyTheme initialTheme b, st\<lparr>theme := initialTheme\<rparr>)))"

definition setTheme :: "Theme \<Rightarrow> browser \<times> provider_state \<Rightarrow> browser \<times> provider_state" where
  "setTheme newTheme bs =
     (let b = fst bs; st = snd bs
      in (applyTheme (theme_name newTheme)
            (b\<lparr>localStorage := (localStorage b)(''theme'' \<mapsto> theme_name newTheme)\<rparr>),
          st\<lparr>theme := theme_name newTheme\<rparr>))"

definition toggleTheme ::
  "provider_state \<Rightarrow> browser \<times> provider_state \<Rightarrow> browser \<times> provider_state" where
  \<comment> \<open>the first argument is the render whose \<open>theme\<close> the closure reads\<close>
  "toggleTheme rendered bs =
     (let newTheme = (if theme rendered = ''light'' then Dark else Light)
      in setTheme newTheme bs)"

record ThemeContextType =
  context_theme :: string
  context_toggleTheme :: "browser \<times> provider_state \<Rightarrow> browser \<times> provider_state"
  context_setTheme :: "Theme \<Rightarrow> browser \<times> provider_state \<Rightarrow> browser \<times> provider_state"

text \<open>
  What the provider renders: \<open>null\<close> before the mount effect has run (no child is
  rendered then), the context value for its children afterwards.
\<close>

datatype provider_output = RenderNull | Provide ThemeContextType

definition ThemeProvider :: "provider_state \<Rightarrow> provider_output" where
  "ThemeProvider st =
     (if \<not> mounted st then RenderNull
      else Provide \<lparr>context_theme = theme st, context_toggleTheme = toggleTheme st,
                    context_setTheme = setTheme\<rparr>)"

definition useTheme :: "ThemeContextType option \<Rightarrow> js_error + ThemeContextType" where
  \<comment> \<open>the argument is what \<open>useContext(ThemeContext)\<close> returns: \<open>undefined\<close> (here
      \<open>None\<close>), the context's default, when no provider is above the caller\<close>
  "useTheme ctx =
     (case ctx of
        None \<Rightarrow> Inl (Error ''useTheme must be used within a ThemeProvider'')
      | Some c \<Rightarrow> Inr c)"

section \<open>Rounding to a double\<close>

text \<open>
  Facts about \<open>round_real\<close>: the error is at most half a unit in the last place, the
  rounding is monotone, whole numbers up to \<open>2^53\<close> are doubles, and a real whose
  exponent and nearest multiple of the unit are known is rounded to that multiple (the
  rule by which the examples below are evaluated).
\<close>

lemma rne_of_int [simp]: "rne (of_int n) = n"
  by (simp add: rne_def)

lemma rne_cases:
  "rne x = \<lfloor>x\<rfloor> \<or> rne x = \<lfloor>x\<rfloor> + 1"
  by (simp add: rne_def Let_def)

lemma rne_error: "\<bar>of_int (rne x) - x\<bar> \<le> 1 / 2"
proof -
  have "of_int \<lfloor>x\<rfloor> \<le> x" "x < of_int \<lfloor>x\<rfloor> + 1" by linarith+
  then show ?thesis
    by (auto simp add: rne_def Let_def abs_le_iff)
qed

lemma rne_eqI:
  assumes "\<bar>x - of_int n\<bar> < 1 / 2"
  shows "rne x = n"
proof -
  from rne_error[of x] assms have "\<bar>real_of_int (rne x) - real_of_int n\<bar> < 1" by linarith
  then have "\<bar>rne x - n\<bar> < 1" by (metis of_int_diff of_int_abs of_int_less_1_iff)
  then show ?thesis by linarith
qed

lemma rne_mono:
  assumes "x \<le> y"
  shows "rne x \<le> rne y"
proof (cases "\<lfloor>x\<rfloor> = \<lfloor>y\<rfloor>")
  case True
  then show ?thesis using assms
    by (auto simp add: rne_def Let_def)
next
  case False
  then have "\<lfloor>x\<rfloor> < \<lfloor>y\<rfloor>" using floor_mono[OF assms] by linarith
  moreover have "rne x \<le> \<lfloor>x\<rfloor> + 1" using rne_cases[of x] by linarith
  moreover have "\<lfloor>y\<rfloor> \<le> rne y" using rne_cases[of y] by linarith
  ultimately show ?thesis by linarith
qed

lemma rne_zero [simp]: "rne 0 = 0"
  using rne_of_int[of 0] by simp

lemma rne_nonneg: "0 \<le> x \<Longrightarrow> 0 \<le> rne x"
  using rne_mono[of 0 x] by simp

lemma binade_ge: "- 1022 \<le> binade x"
proof -
  have "- 1022 \<le> - bitlen (\<lceil>1 / \<bar>x\<bar>\<rceil> - 1)"
    if "2 powi (- 1022) \<le> \<bar>x\<bar>" "\<bar>x\<bar> < 1"
  proof -
    have pos: "0 < \<bar>x\<bar>" using that(1) by (smt (verit) zero_less_power_int)
    have "1 / \<bar>x\<bar> \<le> 1 / 2 powi (- 1022)"
      using that(1) pos by (intro divide_left_mono) (simp_all)
    also have "\<dots> = 2 ^ 1022" by (simp add: power_int_minus)
    finally have "1 / \<bar>x\<bar> \<le> of_int (2 ^ 1022)" by simp
    then have "\<lceil>1 / \<bar>x\<bar>\<rceil> \<le> 2 ^ 1022" by (simp add: ceiling_le_iff)
    then have "\<lceil>1 / \<bar>x\<bar>\<rceil> - 1 < 2 ^ nat 1022" by simp
    then have "bitlen (\<lceil>1 / \<bar>x\<bar>\<rceil> - 1) \<le> 1022"
      by (simp add: bitlen_le_iff_power)
    then show ?thesis by simp
  qed
  moreover have "- 1022 \<le> bitlen \<lfloor>\<bar>x\<bar>\<rfloor> - 1" if "1 \<le> \<bar>x\<bar>"
    using bitlen_nonneg[of "\<lfloor>\<bar>x\<bar>\<rfloor>"] by simp
  ultimately show ?thesis
    by (auto simp add: binade_def Let_def)
qed

lemma binade_subnormal: "\<bar>x\<bar> < 2 powi (- 1022) \<Longrightarrow> binade x = - 1022"
  by (simp add: binade_def)

lemma binade_bounds:
  assumes "2 powi (- 1022) \<le> \<bar>x\<bar>"
  shows "2 powi binade x \<le> \<bar>x\<bar>" "\<bar>x\<bar> < 2 powi (binade x + 1)"
proof -
  define a where "a = \<bar>x\<bar>"
  have pos: "0 < a" using assms unfolding a_def by (smt (verit) zero_less_power_int)
  have "2 powi binade x \<le> a \<and> a < 2 powi (binade x + 1)"
  proof (cases "1 \<le> a")
    case True
    define m where "m = \<lfloor>a\<rfloor>"
    have m: "0 < m" "of_int m \<le> a" "a < of_int m + 1" using True unfolding m_def by linarith+
    have b: "binade x = bitlen m - 1"
      using True assms unfolding binade_def a_def[symmetric] m_def by (simp add: Let_def)
    have nn: "0 \<le> bitlen m - 1" using m(1) bitlen_eq_zero_iff[of m] bitlen_nonneg[of m] by linarith
    from bitlen_bounds[OF m(1)] have lo: "2 ^ nat (bitlen m - 1) \<le> m" and hi: "m < 2 ^ nat (bitlen m)"
      by simp_all
    have "(2::real) powi (bitlen m - 1) = of_int (2 ^ nat (bitlen m - 1))"
      using nn by (simp add: power_int_nonneg_exp)
    also have "\<dots> \<le> of_int m" using lo by (simp only: of_int_le_iff)
    finally have 1: "2 powi (bitlen m - 1) \<le> a" using m(2) by linarith
    have "m + 1 \<le> 2 ^ nat (bitlen m)" using hi by linarith
    then have "of_int (m + 1) \<le> (of_int (2 ^ nat (bitlen m)) :: real)" by (simp only: of_int_le_iff)
    also have "\<dots> = 2 powi (bitlen m)" using bitlen_nonneg[of m] by (simp add: power_int_nonneg_exp)
    finally have 2: "a < 2 powi (bitlen m - 1 + 1)" using m(3) by simp
    from 1 2 b show ?thesis by simp
  next
    case False
    define m where "m = \<lceil>1 / a\<rceil>"
    define j where "j = bitlen (m - 1)"
    have y: "1 < 1 / a" using False pos by simp
    have m: "1 / a \<le> of_int m" "of_int m - 1 < 1 / a" unfolding m_def by linarith+
    have m2: "0 < m - 1" using y m(1) by linarith
    have b: "binade x = - j"
      using False assms unfolding binade_def a_def[symmetric] m_def j_def by (simp add: Let_def)
    from bitlen_bounds[OF m2] have lo: "2 ^ nat (j - 1) \<le> m - 1" and hi: "m - 1 < 2 ^ nat j"
      unfolding j_def by simp_all
    have j1: "1 \<le> j" using m2 bitlen_eq_zero_iff[of "m - 1"] bitlen_nonneg[of "m - 1"] unfolding j_def by linarith
    have "m \<le> 2 ^ nat j" using hi by linarith
    then have "of_int m \<le> (of_int (2 ^ nat j) :: real)" by (simp only: of_int_le_iff)
    also have "\<dots> = 2 powi j" using j1 by (simp add: power_int_nonneg_exp)
    finally have "1 / a \<le> 2 powi j" using m(1) by linarith
    then have "1 \<le> 2 powi j * a" using pos by (simp add: field_simps)
    then have 1: "2 powi (- j) \<le> a" by (simp add: power_int_minus field_simps)
    have "(2::real) powi (j - 1) = of_int (2 ^ nat (j - 1))" using j1 by (simp add: power_int_nonneg_exp)
    also have "\<dots> \<le> of_int (m - 1)" using lo by (simp only: of_int_le_iff)
    also have "\<dots> < 1 / a" using m(2) by simp
    finally have "2 powi (j - 1) * a < 1" using pos by (simp add: field_simps)
    then have "a < 1 / 2 powi (j - 1)" by (simp add: field_simps)
    also have "\<dots> = 2 powi (- j + 1)" by (simp add: power_int_minus_divide[symmetric])
    finally have 2: "a < 2 powi (- j + 1)" .
    from 1 2 b show ?thesis by simp
  qed
  then show "2 powi binade x \<le> \<bar>x\<bar>" "\<bar>x\<bar> < 2 powi (binade x + 1)"
    unfolding a_def by simp_all
qed

lemma binade_upper: "\<bar>x\<bar> < 2 powi (binade x + 1)"
proof (cases "2 powi (- 1022) \<le> \<bar>x\<bar>")
  case True
  then show ?thesis by (rule binade_bounds(2))
next
  case False
  then have "binade x = - 1022" by (simp add: binade_subnormal)
  moreover have "(2::real) powi (- 1022) \<le> 2 powi (- 1022 + 1)"
    by (intro power_int_increasing) simp_all
  ultimately show ?thesis using False by simp
qed

lemma binade_eqI:
  assumes "- 1022 \<le> k" "2 powi k \<le> \<bar>x\<bar>" "\<bar>x\<bar> < 2 powi (k + 1)"
  shows "binade x = k"
proof -
  have "(2::real) powi (- 1022) \<le> 2 powi k" using assms(1) by (intro power_int_increasing) simp_all
  then have n: "2 powi (- 1022) \<le> \<bar>x\<bar>" using assms(2) by linarith
  from binade_bounds[OF n] assms(2,3)
  have "(2::real) powi binade x < 2 powi (k + 1)" "(2::real) powi k < 2 powi (binade x + 1)" by linarith+
  moreover have "a < b" if "(2::real) powi a < 2 powi b" for a b :: int
  proof (rule ccontr)
    assume "\<not> a < b"
    then have "(2::real) powi b \<le> 2 powi a" by (intro power_int_increasing) simp_all
    with that show False by linarith
  qed
  ultimately have "binade x < k + 1" "k < binade x + 1" by blast+
  then show ?thesis by linarith
qed

lemma powi_less_imp_less:
  fixes a b :: int
  assumes "(2::real) powi a < 2 powi b"
  shows "a < b"
proof (rule ccontr)
  assume "\<not> a < b"
  then have "(2::real) powi b \<le> 2 powi a" by (intro power_int_increasing) simp_all
  with assms show False by linarith
qed

lemma binade_mono:
  assumes "\<bar>x\<bar> \<le> \<bar>y\<bar>"
  shows "binade x \<le> binade y"
proof (cases "2 powi (- 1022) \<le> \<bar>x\<bar>")
  case False
  then show ?thesis using binade_ge[of y] by (simp add: binade_subnormal)
next
  case True
  then have "2 powi (- 1022) \<le> \<bar>y\<bar>" using assms by linarith
  from binade_bounds(1)[OF True] binade_bounds(2)[OF this] assms
  have "(2::real) powi binade x < 2 powi (binade y + 1)" by linarith
  then have "binade x < binade y + 1" by (rule powi_less_imp_less)
  then show ?thesis by linarith
qed

lemma ulp_pos: "0 < ulp x"
  by (simp add: ulp_def)

lemma round_real_zero [simp]: "round_real 0 = 0"
  by (simp add: round_real_def)

lemma round_real_error: "\<bar>round_real x - x\<bar> \<le> ulp x / 2"
proof -
  have "round_real x - x = (of_int (rne (x / ulp x)) - x / ulp x) * ulp x"
    using ulp_pos[of x] by (simp add: round_real_def field_simps)
  then have "\<bar>round_real x - x\<bar> = \<bar>of_int (rne (x / ulp x)) - x / ulp x\<bar> * ulp x"
    using ulp_pos[of x] by (simp add: abs_mult)
  also have "\<dots> \<le> 1 / 2 * ulp x"
    using rne_error[of "x / ulp x"] ulp_pos[of x] by (intro mult_right_mono) simp_all
  finally show ?thesis by simp
qed

lemma round_real_nonneg: "0 \<le> x \<Longrightarrow> 0 \<le> round_real x"
  using rne_nonneg[of "x / ulp x"] ulp_pos[of x] by (simp add: round_real_def)

lemma round_real_upper:
  assumes "0 \<le> x"
  shows "round_real x \<le> 2 powi (binade x + 1)"
proof -
  have "x < 2 powi (binade x + 1)" using binade_upper[of x] assms by simp
  also have "\<dots> = 2 ^ 53 * ulp x"
    by (simp add: ulp_def power_int_diff power_int_add)
  finally have "x / ulp x \<le> of_int (2 ^ 53)" using ulp_pos[of x] by (simp add: field_simps)
  from rne_mono[OF this] have "rne (x / ulp x) \<le> 2 ^ 53" by (simp only: rne_of_int)
  then have "real_of_int (rne (x / ulp x)) \<le> 2 ^ 53"
    by (metis of_int_le_iff of_int_numeral of_int_power)
  then have "round_real x \<le> 2 ^ 53 * ulp x"
    using ulp_pos[of x] by (simp add: round_real_def)
  also have "\<dots> = 2 powi (binade x + 1)"
    by (simp add: ulp_def power_int_diff power_int_add)
  finally show ?thesis .
qed

lemma round_real_lower:
  assumes "2 powi (- 1022) \<le> x"
  shows "2 powi binade x \<le> round_real x"
proof -
  have a: "2 powi (- 1022) \<le> \<bar>x\<bar>" using assms by simp
  have "0 \<le> x" using assms by (smt (verit) zero_less_power_int)
  have "2 powi binade x \<le> x" using binade_bounds(1)[OF a] \<open>0 \<le> x\<close> by simp
  moreover have "2 powi binade x = 2 ^ 52 * ulp x"
    by (simp add: ulp_def power_int_diff)
  ultimately have "of_int (2 ^ 52) \<le> x / ulp x" using ulp_pos[of x] by (simp add: field_simps)
  from rne_mono[OF this] have "2 ^ 52 \<le> rne (x / ulp x)" by (simp only: rne_of_int)
  then have "2 ^ 52 \<le> real_of_int (rne (x / ulp x))"
    by (metis of_int_le_iff of_int_numeral of_int_power)
  then have "2 ^ 52 * ulp x \<le> round_real x"
    using ulp_pos[of x] by (simp add: round_real_def)
  then show ?thesis using \<open>2 powi binade x = 2 ^ 52 * ulp x\<close> by simp
qed

lemma round_real_mono:
  assumes "0 \<le> x" "x \<le> y"
  shows "round_real x \<le> round_real y"
proof (cases "binade x = binade y")
  case True
  then have u: "ulp x = ulp y" by (simp add: ulp_def)
  have "x / ulp y \<le> y / ulp y" using assms(2) ulp_pos[of y] by (simp add: divide_right_mono)
  from rne_mono[OF this] show ?thesis
    using ulp_pos[of y] by (simp add: round_real_def u)
next
  case False
  have "binade x \<le> binade y" using assms by (intro binade_mono) simp
  with False have lt: "binade x + 1 \<le> binade y" by simp
  then have "- 1022 < binade y" using binade_ge[of x] by linarith
  then have "\<not> \<bar>y\<bar> < 2 powi (- 1022)" using binade_subnormal[of y] by auto
  then have ny: "2 powi (- 1022) \<le> y" using assms by simp
  have "round_real x \<le> 2 powi (binade x + 1)" using assms(1) by (rule round_real_upper)
  also have "\<dots> \<le> 2 powi binade y" using lt by (intro power_int_increasing) simp_all
  also have "\<dots> \<le> round_real y" using ny by (rule round_real_lower)
  finally show ?thesis .
qed

lemma round_real_exact:
  assumes "x / ulp x = of_int n"
  shows "round_real x = x"
proof -
  have "round_real x = of_int n * ulp x" by (simp add: round_real_def assms)
  also have "\<dots> = x" using assms ulp_pos[of x] by (simp add: field_simps)
  finally show ?thesis .
qed

lemma round_real_eqI:
  assumes "- 1022 \<le> k" "2 powi k \<le> \<bar>x\<bar>" "\<bar>x\<bar> < 2 powi (k + 1)"
    and "\<bar>x / 2 powi (k - 52) - of_int n\<bar> < 1 / 2"
  shows "round_real x = of_int n * 2 powi (k - 52)"
proof -
  have "binade x = k" using assms(1-3) by (rule binade_eqI)
  then have u: "ulp x = 2 powi (k - 52)" by (simp add: ulp_def)
  have "rne (x / ulp x) = n" using assms(4) unfolding u by (rule rne_eqI)
  then show ?thesis by (simp add: round_real_def u)
qed

lemma binade_one: "binade 1 = 0"
  by (rule binade_eqI) simp_all

lemma round_real_int:
  assumes "0 \<le> k" "k \<le> 2 ^ 53"
  shows "round_real (of_int k) = of_int k"
proof (cases "k = 0")
  case True
  then show ?thesis by simp
next
  case False
  then have k1: "1 \<le> k" using assms(1) by simp
  show ?thesis
  proof (cases "k = 2 ^ 53")
    case True
    have b: "binade (2 ^ 53) = 53"
      by (rule binade_eqI) simp_all
    have "(2::real) ^ 53 / ulp (2 ^ 53) = of_int (2 ^ 52)"
      unfolding ulp_def b by simp
    then have "round_real (2 ^ 53) = 2 ^ 53" by (rule round_real_exact)
    then show ?thesis unfolding True by simp
  next
    case False
    then have lt: "k < 2 ^ 53" using assms(2) by simp
    define b where "b = binade (of_int k)"
    have "binade 1 \<le> binade (of_int k)" using k1 by (intro binade_mono) simp
    then have b0: "0 \<le> b" by (simp add: binade_one b_def)
    have n: "2 powi (- 1022) \<le> \<bar>real_of_int k\<bar>"
    proof -
      have "(2::real) powi (- 1022) \<le> 2 powi 0" by (intro power_int_increasing) simp_all
      then show ?thesis using k1 by simp
    qed
    have "2 powi b \<le> \<bar>real_of_int k\<bar>" unfolding b_def using n by (rule binade_bounds(1))
    also have "\<dots> < 2 ^ 53" using lt k1 by (simp add: abs_if)
    finally have "(2::real) powi b < 2 powi 53" by simp
    then have b53: "b < 53" by (rule powi_less_imp_less)
    have "ulp (of_int k) = 2 powi (b - 52)" by (simp add: ulp_def b_def)
    also have "\<dots> = 1 / 2 powi (52 - b)" by (simp add: power_int_minus_divide[symmetric])
    also have "\<dots> = 1 / 2 ^ nat (52 - b)" using b53 by (simp add: power_int_nonneg_exp)
    finally have "real_of_int k / ulp (of_int k) = of_int (k * 2 ^ nat (52 - b))" by simp
    then show ?thesis by (rule round_real_exact)
  qed
qed

lemma round_real_one [simp]: "round_real 1 = 1"
  using round_real_int[of 1] by simp

lemma round_real_two [simp]: "round_real 2 = 2"
  using round_real_int[of 2] by simp

lemma round_real_small_error:
  assumes "0 \<le> x" "x \<le> 2"
  shows "\<bar>round_real x - x\<bar> \<le> 1 / 2 ^ 53"
proof (cases "x = 2")
  case True
  then show ?thesis by simp
next
  case False
  then have lt: "x < 2" using assms by simp
  have "binade x \<le> 0"
  proof (cases "2 powi (- 1022) \<le> \<bar>x\<bar>")
    case True
    from binade_bounds(1)[OF True] lt assms(1) have "(2::real) powi binade x < 2 powi 1" by simp
    then have "binade x < 1" by (rule powi_less_imp_less)
    then show ?thesis by simp
  next
    case False
    then show ?thesis by (simp add: binade_subnormal)
  qed
  then have "ulp x \<le> 2 powi (- 52)"
    unfolding ulp_def by (intro power_int_increasing) simp_all
  then have "ulp x / 2 \<le> 1 / 2 ^ 53" by (simp add: power_int_minus_divide)
  with round_real_error[of x] show ?thesis by linarith
qed

lemma round_real_le_one:
  assumes "0 \<le> x" "x < 1 + 1 / 2 ^ 53"
  shows "round_real x \<le> 1"
proof (cases "x \<le> 1")
  case True
  from round_real_mono[OF assms(1) True] show ?thesis by simp
next
  case False
  then have x1: "1 < x" by simp
  have b: "binade x = 0"
  proof (rule binade_eqI)
    show "\<bar>x\<bar> < 2 powi (0 + 1)" using assms(2) x1 by simp
  qed (use x1 in simp_all)
  then have u: "ulp x = 1 / 2 ^ 52" by (simp add: ulp_def power_int_minus_divide)
  have "\<bar>x / ulp x - of_int (2 ^ 52)\<bar> < 1 / 2"
    using x1 assms(2) by (simp add: u abs_if field_simps)
  then have "rne (x / ulp x) = 2 ^ 52" by (rule rne_eqI)
  then show ?thesis by (simp add: round_real_def u)
qed

lemma round_real_rel_error:
  assumes "0 \<le> x"
  shows "\<bar>round_real x - x\<bar> \<le> x / 2 ^ 53 + 2 powi (- 1075)"
proof (cases "2 powi (- 1022) \<le> \<bar>x\<bar>")
  case True
  have "ulp x / 2 = 2 powi binade x / 2 ^ 53"
    by (simp add: ulp_def power_int_diff)
  also have "\<dots> \<le> x / 2 ^ 53"
    using binade_bounds(1)[OF True] assms by (simp add: divide_right_mono)
  finally have "ulp x / 2 \<le> x / 2 ^ 53" .
  moreover have "(0::real) \<le> 2 powi (- 1075)" by simp
  ultimately show ?thesis using round_real_error[of x] by linarith
next
  case False
  then have "binade x = - 1022" by (simp add: binade_subnormal)
  then have "ulp x / 2 = 2 powi (- 1075)" by (simp add: ulp_def power_int_minus_divide)
  moreover have "0 \<le> x / 2 ^ 53" using assms by simp
  ultimately show ?thesis using round_real_error[of x] by linarith
qed

lemma rne_tie:
  "rne (of_int f + 1 / 2) = (if even f then f else f + 1)"
proof -
  have "\<lfloor>real_of_int f + 1 / 2\<rfloor> = f" by linarith
  then show ?thesis by (simp add: rne_def Let_def)
qed

lemma round_real_evalI:
  assumes "- 1022 \<le> k" "2 powi k \<le> \<bar>x\<bar>" "\<bar>x\<bar> < 2 powi (k + 1)"
    and "\<bar>x / 2 powi (k - 52) - of_int n\<bar> < 1 / 2"
    and "v = of_int n * 2 powi (k - 52)"
  shows "round_real x = v"
  using round_real_eqI[OF assms(1-4)] assms(5) by simp

lemma round_real_tieI:
  assumes "- 1022 \<le> k" "2 powi k \<le> \<bar>x\<bar>" "\<bar>x\<bar> < 2 powi (k + 1)"
    and "x / 2 powi (k - 52) = of_int f + 1 / 2"
    and "n = (if even f then f else f + 1)"
    and "v = of_int n * 2 powi (k - 52)"
  shows "round_real x = v"
proof -
  have "binade x = k" using assms(1-3) by (rule binade_eqI)
  then have u: "ulp x = 2 powi (k - 52)" by (simp add: ulp_def)
  have "rne (x / ulp x) = n" unfolding u assms(4) rne_tie assms(5) ..
  then show ?thesis by (simp add: round_real_def u assms(6))
qed

text \<open>Rounding is odd, and so monotone on all reals.\<close>

lemma rne_minus: "rne (- x) = - rne x"
proof -
  define f where "f = \<lfloor>x\<rfloor>"
  define r where "r = x - of_int f"
  have r: "0 \<le> r" "r < 1" and x: "x = of_int f + r"
    unfolding r_def f_def by linarith+
  consider "r = 0" | "0 < r" "r < 1 / 2" | "r = 1 / 2" | "1 / 2 < r" using r by linarith
  then show ?thesis
  proof cases
    case 1
    then have "x = of_int f" using x by simp
    then have "rne x = f" "rne (- x) = - f"
      using rne_of_int[of f] rne_of_int[of "- f"] by simp_all
    then show ?thesis by simp
  next
    case 2
    have "rne x = f" by (rule rne_eqI) (use x 2 in simp)
    moreover have "rne (- x) = - f" by (rule rne_eqI) (use x 2 in simp)
    ultimately show ?thesis by simp
  next
    case 3
    then have a: "x = of_int f + 1 / 2" and b: "- x = of_int (- f - 1) + 1 / 2"
      using x by simp_all
    show ?thesis unfolding a unfolding b[unfolded a] rne_tie by auto
  next
    case 4
    have "rne x = f + 1" by (rule rne_eqI) (use x 4 r in simp)
    moreover have "rne (- x) = - (f + 1)" by (rule rne_eqI) (use x 4 r in simp)
    ultimately show ?thesis by simp
  qed
qed

lemma round_real_minus: "round_real (- x) = - round_real x"
proof -
  have "ulp (- x) = ulp x" by (simp add: ulp_def binade_def)
  then show ?thesis
    using rne_minus[of "x / ulp x"] by (simp add: round_real_def)
qed

lemma round_real_mono_all:
  assumes "x \<le> y"
  shows "round_real x \<le> round_real y"
proof -
  consider "0 \<le> x" | "y \<le> 0" | "x < 0" "0 < y" by linarith
  then show ?thesis
  proof cases
    case 1
    then show ?thesis using assms by (rule round_real_mono)
  next
    case 2
    then have "round_real (- y) \<le> round_real (- x)"
      using assms by (intro round_real_mono) simp_all
    then show ?thesis by (simp add: round_real_minus)
  next
    case 3
    have "0 \<le> round_real (- x)" "0 \<le> round_real y"
      using 3 by (simp_all add: round_real_nonneg)
    then show ?thesis by (simp add: round_real_minus)
  qed
qed

text \<open>
  A bound by a double on an exact result holds for the rounded result.
\<close>

lemma round_real_between:
  assumes "is_double m" "- m \<le> r" "r \<le> m"
  shows "- m \<le> round_real r \<and> round_real r \<le> m"
proof -
  have m: "round_real m = m" using assms(1) by (simp add: is_double_def)
  have "round_real (- m) \<le> round_real r" "round_real r \<le> round_real m"
    using assms(2,3) by (simp_all add: round_real_mono_all)
  then show ?thesis by (simp add: round_real_minus m)
qed

section \<open>The arithmetic of one frame of the counter\<close>

text \<open>
  The operators of \<open>updateCounter\<close> on finite arguments: the difference of two
  timestamps is exact, and the progress, the eased progress and the count are the
  rounded values \<open>progress_value\<close>, \<open>eased_value\<close> and \<open>running_count\<close>. Then the
  two analyses that the claims about the displayed count rest on: the distance of the
  rounded count from the exact one, and the monotonicity of the rounded count for
  durations up to \<open>2^25\<close> ms.
\<close>

lemma threshold_gt: "2 ^ 53 < overflow_threshold"
  unfolding overflow_threshold_def by (rule power_strict_increasing) simp_all

lemma threshold_pos: "0 < overflow_threshold"
  unfolding overflow_threshold_def by simp

lemma round_double_nonneg:
  assumes "0 \<le> r"
  shows "round_double False r =
     (if overflow_threshold \<le> round_real r then PosInf else Num (round_real r))"
  using round_real_nonneg[OF assms] threshold_pos
  by (auto simp add: round_double_def Let_def)

lemma round_double_bounded:
  assumes "0 \<le> r" "round_real r < overflow_threshold"
  shows "round_double False r = Num (round_real r)"
  using assms by (simp add: round_double_nonneg)

lemma real_le_2p53:
  fixes k :: int
  assumes "k \<le> 2 ^ 53"
  shows "real_of_int k \<le> 2 ^ 53"
proof -
  have "real_of_int k \<le> real_of_int (2 ^ 53)" using assms by (simp only: of_int_le_iff)
  then show ?thesis by simp
qed

lemma js_sub_timestamps:
  assumes "0 \<le> s" "s \<le> t" "t \<le> 2 ^ 53"
  shows "js_sub (Num (of_int t)) (Num (of_int s)) = Num (of_int (t - s))"
proof (cases "t = s")
  case True
  then show ?thesis
    by (simp add: js_sub_def js_add_def is_inf_def finite_part_def Let_def)
next
  case False
  have r: "round_real (of_int (t - s)) = of_int (t - s)"
    using assms by (intro round_real_int) simp_all
  have "real_of_int (t - s) \<le> 2 ^ 53" using assms by (intro real_le_2p53) simp
  then have lt: "real_of_int (t - s) < overflow_threshold" using threshold_gt by linarith
  have "round_double False (of_int (t - s)) = Num (of_int (t - s))"
    using round_double_bounded[of "of_int (t - s)"] r lt assms by simp
  moreover have "\<not> real_of_int t - real_of_int s < 0" using assms by simp
  ultimately show ?thesis using False
    by (auto simp add: js_sub_def js_add_def is_inf_def finite_part_def Let_def)
qed

lemma progress_value_range: "0 \<le> n \<Longrightarrow> 0 < d \<Longrightarrow> 0 \<le> progress_value d n \<and> progress_value d n \<le> 1"
  unfolding progress_value_def using round_real_nonneg[of "of_int n / d"] by simp

lemma js_progress:
  assumes "0 \<le> n" "0 < d"
  shows "js_min (js_div (Num (of_int n)) (Num d)) (Num 1) = Num (progress_value d n)"
proof -
  let ?v = "round_real (of_int n / d)"
  have nn: "0 \<le> of_int n / d" using assms by simp
  have v0: "0 \<le> ?v" using nn by (rule round_real_nonneg)
  have dv: "js_div (Num (of_int n)) (Num d) = (if overflow_threshold \<le> ?v then PosInf else Num ?v)"
    using assms round_double_nonneg[OF nn]
    by (simp add: js_div_def div_with_def is_inf_def is_zero_def sign_bit_def finite_part_def Let_def)
  have t1: "1 < overflow_threshold" using threshold_gt by (smt (verit) one_le_power)
  show ?thesis
  proof (cases "overflow_threshold \<le> ?v")
    case True
    then have "min ?v 1 = 1" using t1 by simp
    then show ?thesis using True
      by (simp add: dv js_min_def js_lt_def progress_value_def)
  next
    case False
    then show ?thesis
      by (auto simp add: dv js_min_def js_lt_def finite_part_def progress_value_def min_def)
  qed
qed

lemma round_real_two_minus:
  assumes "0 \<le> p" "p \<le> 1"
  shows "1 \<le> round_real (2 - p)" "round_real (2 - p) \<le> 2"
proof -
  have "round_real 1 \<le> round_real (2 - p)" using assms by (intro round_real_mono) simp_all
  then show "1 \<le> round_real (2 - p)" by simp
  have "round_real (2 - p) \<le> round_real 2" using assms by (intro round_real_mono) simp_all
  then show "round_real (2 - p) \<le> 2" by simp
qed

lemma eased_value_range:
  assumes "0 \<le> p" "p \<le> 1"
  shows "0 \<le> eased_value p" "eased_value p \<le> 2"
proof -
  from round_real_two_minus[OF assms] have u: "1 \<le> round_real (2 - p)" "round_real (2 - p) \<le> 2" .
  have pu: "0 \<le> p * round_real (2 - p)" using assms(1) u(1) by simp
  then show "0 \<le> eased_value p" unfolding eased_value_def by (rule round_real_nonneg)
  have "p * round_real (2 - p) \<le> 1 * 2" using assms u by (intro mult_mono) simp_all
  then have "round_real (p * round_real (2 - p)) \<le> round_real 2" using pu by (intro round_real_mono) simp_all
  then show "eased_value p \<le> 2" unfolding eased_value_def by simp
qed

lemma js_easeOutQuad:
  assumes "0 \<le> p" "p \<le> 1"
  shows "easeOutQuad (Num p) = Num (eased_value p)"
proof -
  from round_real_two_minus[OF assms] have u: "1 \<le> round_real (2 - p)" "round_real (2 - p) \<le> 2" .
  have t2: "2 < overflow_threshold" using threshold_gt by (smt (verit) power_increasing one_le_numeral power_one_right)
  have "js_add (Num 2) (js_neg (Num p)) = round_double False (2 - p)"
    using assms by (auto simp add: js_add_def is_inf_def finite_part_def Let_def)
  also have "\<dots> = Num (round_real (2 - p))"
    using u t2 assms by (intro round_double_bounded) simp_all
  finally have sub: "js_sub (Num 2) (Num p) = Num (round_real (2 - p))" by (simp add: js_sub_def)
  have pu: "0 \<le> p * round_real (2 - p)" using assms(1) u(1) by simp
  have "round_double False (p * round_real (2 - p)) = Num (eased_value p)"
    unfolding eased_value_def using eased_value_range[OF assms] t2 pu
    by (intro round_double_bounded) (simp_all add: eased_value_def)
  moreover have "\<not> round_real (2 - p) < 0" using u by simp
  ultimately show ?thesis using assms
    by (simp add: easeOutQuad_def sub js_mul_def mul_with_def is_inf_def is_zero_def sign_bit_def
        finite_part_def Let_def)
qed


lemma js_count:
  assumes "0 \<le> E" "0 \<le> e" "round_real (E * e) < overflow_threshold"
  shows "js_floor (js_mul (Num E) (Num e)) = Num (of_int \<lfloor>round_real (E * e)\<rfloor>)"
proof -
  have nn: "0 \<le> E * e" using assms by simp
  have "round_double False (E * e) = Num (round_real (E * e))"
    using nn assms(3) by (rule round_double_bounded)
  then show ?thesis using assms
    by (simp add: js_mul_def mul_with_def is_inf_def is_zero_def sign_bit_def finite_part_def Let_def)
qed

lemma end_time_eq:
  assumes "0 \<le> s" "0 < d"
  shows "end_time s d =
     (if overflow_threshold \<le> round_real (of_int s + d) then PosInf
      else Num (round_real (of_int s + d)))"
proof -
  have nn: "0 \<le> real_of_int s + d" "real_of_int s + d \<noteq> 0" "\<not> real_of_int s + d < 0"
    using assms by simp_all
  then show ?thesis
    using round_double_nonneg[OF nn(1)]
    by (simp add: end_time_def js_add_def is_inf_def finite_part_def Let_def)
qed



lemma running_antimono:
  assumes "0 \<le> s" "0 < d" "t \<le> t'" "js_lt (Num (of_int t')) (end_time s d)"
  shows "js_lt (Num (of_int t)) (end_time s d)"
  using assms(3,4)
  by (auto simp add: end_time_eq[OF assms(1,2)] js_lt_def finite_part_def split: if_splits)

lemma frame_value_running:
  assumes "duration p = Num d" "0 < d" "end' p = Num e" "0 \<le> e"
    and "0 \<le> s" "s \<le> t" "t \<le> 2 ^ 53"
    and c: "c = \<lparr>startTime = s, endTime = js_add (Num (of_int s)) (duration p)\<rparr>"
    and bound: "round_real (eased_value (progress_value d (t - s)) * e) < overflow_threshold"
  shows "frame_value p c t =
     (if js_lt (Num (of_int t)) (end_time s d) then Num (of_int (running_count e d (t - s)))
      else Num e)"
proof -
  have n: "0 \<le> t - s" using assms by simp
  from progress_value_range[OF n assms(2)]
  have pr: "0 \<le> progress_value d (t - s)" "progress_value d (t - s) \<le> 1" by simp_all
  have E0: "0 \<le> eased_value (progress_value d (t - s))" using pr by (intro eased_value_range)
  show ?thesis
    by (simp only: frame_value_def c update_closure.select_convs assms(1,3) end_time_def
        js_sub_timestamps[OF assms(5-7)] js_progress[OF n assms(2)] js_easeOutQuad[OF pr]
        js_count[OF E0 assms(4) bound] running_count_def)
qed

lemma end_time_int:
  assumes "0 \<le> s" "0 < D" "s + D \<le> 2 ^ 53"
  shows "end_time s (of_int D) = Num (of_int (s + D))"
proof -
  have r: "round_real (of_int (s + D)) = of_int (s + D)"
    using assms by (intro round_real_int) simp_all
  have "real_of_int (s + D) \<le> 2 ^ 53" using assms(3) by (rule real_le_2p53)
  then have "real_of_int (s + D) < overflow_threshold" using threshold_gt by linarith
  then have "\<not> overflow_threshold \<le> round_real (of_int s + of_int D)" using r by simp
  then show ?thesis
    using end_time_eq[of s "of_int D"] assms(1,2) r by simp
qed

lemma progress_value_error:
  assumes "0 \<le> n" "0 < d"
  shows "\<bar>progress_value d n - min (of_int n / d) 1\<bar> \<le> 1 / 2 ^ 53"
proof (cases "of_int n / d \<le> 1")
  case True
  have nn: "0 \<le> of_int n / d" using assms by simp
  have "round_real (of_int n / d) \<le> round_real 1" using nn True by (rule round_real_mono)
  then have "progress_value d n = round_real (of_int n / d)" by (simp add: progress_value_def)
  moreover have "min (of_int n / d) 1 = of_int n / d" using True by simp
  moreover have "\<bar>round_real (of_int n / d) - of_int n / d\<bar> \<le> 1 / 2 ^ 53"
    using nn True by (intro round_real_small_error) simp_all
  ultimately show ?thesis by simp
next
  case False
  then have "round_real 1 \<le> round_real (of_int n / d)" by (intro round_real_mono) simp_all
  then have "progress_value d n = 1" by (simp add: progress_value_def)
  then show ?thesis using False by simp
qed

lemma eased_value_error:
  assumes "0 \<le> P" "P \<le> 1" "0 \<le> q" "q \<le> 1" "\<bar>P - q\<bar> \<le> 1 / 2 ^ 53"
  shows "\<bar>eased_value P - q * (2 - q)\<bar> \<le> 4 / 2 ^ 53"
proof -
  define U where "U = round_real (2 - P)"
  define eps :: real where "eps = 1 / 2 ^ 53"
  from round_real_two_minus[OF assms(1,2)] have u: "1 \<le> U" "U \<le> 2" unfolding U_def .
  have eu: "\<bar>U - (2 - P)\<bar> \<le> eps"
    unfolding U_def eps_def using assms(1,2) by (intro round_real_small_error) simp_all
  have pu: "0 \<le> P * U" "P * U \<le> 2"
  proof -
    show "0 \<le> P * U" using assms(1) u(1) by simp
    have "P * U \<le> 1 * 2" using assms(1,2) u by (intro mult_mono) simp_all
    then show "P * U \<le> 2" by simp
  qed
  have e1: "\<bar>eased_value P - P * U\<bar> \<le> eps"
    unfolding eased_value_def U_def[symmetric] eps_def using pu by (intro round_real_small_error)
  have "\<bar>P * U - P * (2 - P)\<bar> = P * \<bar>U - (2 - P)\<bar>"
    using assms(1) by (simp add: abs_mult right_diff_distrib[symmetric])
  also have "\<dots> \<le> 1 * eps" using assms(1,2) eu by (intro mult_mono) simp_all
  finally have e2: "\<bar>P * U - P * (2 - P)\<bar> \<le> eps" by simp
  have "P * (2 - P) - q * (2 - q) = (P - q) * (2 - P - q)" by (simp add: algebra_simps)
  then have "\<bar>P * (2 - P) - q * (2 - q)\<bar> = \<bar>P - q\<bar> * \<bar>2 - P - q\<bar>" by (simp add: abs_mult)
  also have "\<dots> \<le> eps * 2"
    using assms unfolding eps_def by (intro mult_mono) (simp_all add: abs_le_iff)
  finally have e3: "\<bar>P * (2 - P) - q * (2 - q)\<bar> \<le> 2 * eps" by simp
  from e1 e2 e3 have "\<bar>eased_value P - q * (2 - q)\<bar> \<le> 4 * eps" by linarith
  then show ?thesis by (simp add: eps_def)
qed

lemma tiny_less_quarter: "(2::real) powi (- 1075) < 1 / 4"
proof -
  have "(2::real) powi (- 1075) \<le> 2 powi (- 3)" by (intro power_int_increasing) simp_all
  also have "\<dots> < 1 / 4" by (simp add: power_int_minus_divide)
  finally show ?thesis .
qed

lemma two_pow_51_less: "2 ^ 51 < overflow_threshold"
  unfolding overflow_threshold_def by (rule power_strict_increasing) simp_all

lemma floor_close:
  fixes a b :: real
  assumes "\<bar>a - b\<bar> < 1"
  shows "\<bar>\<lfloor>a\<rfloor> - \<lfloor>b\<rfloor>\<bar> \<le> 1"
proof -
  have "of_int \<lfloor>a\<rfloor> \<le> a" "a < of_int \<lfloor>a\<rfloor> + 1" "of_int \<lfloor>b\<rfloor> \<le> b" "b < of_int \<lfloor>b\<rfloor> + 1"
    by linarith+
  with assms have "real_of_int \<lfloor>a\<rfloor> - real_of_int \<lfloor>b\<rfloor> < 2" "real_of_int \<lfloor>b\<rfloor> - real_of_int \<lfloor>a\<rfloor> < 2"
    by linarith+
  then have "\<lfloor>a\<rfloor> - \<lfloor>b\<rfloor> < 2" "\<lfloor>b\<rfloor> - \<lfloor>a\<rfloor> < 2" by linarith+
  then show ?thesis by linarith
qed

lemma running_count_within_one:
  assumes "0 \<le> n" "0 < d" "0 \<le> e" "e \<le> 2 ^ 50"
  shows "\<bar>running_count e d n - \<lfloor>min (of_int n / d) 1 * (2 - min (of_int n / d) 1) * e\<rfloor>\<bar> \<le> 1"
    and "round_real (eased_value (progress_value d n) * e) < overflow_threshold"
proof -
  define P where "P = progress_value d n"
  define q where "q = min (real_of_int n / d) 1"
  define E where "E = eased_value P"
  define V where "V = round_real (E * e)"
  from progress_value_range[OF assms(1,2)] have p: "0 \<le> P" "P \<le> 1" unfolding P_def by simp_all
  have q: "0 \<le> q" "q \<le> 1" unfolding q_def using assms(1,2) by simp_all
  have pq: "\<bar>P - q\<bar> \<le> 1 / 2 ^ 53" unfolding P_def q_def using assms(1,2) by (rule progress_value_error)
  have E: "0 \<le> E" "E \<le> 2" unfolding E_def using p by (intro eased_value_range; simp)+
  have eq: "\<bar>E - q * (2 - q)\<bar> \<le> 4 / 2 ^ 53" unfolding E_def using p q pq by (rule eased_value_error)
  have Ee: "0 \<le> E * e" using E(1) assms(3) by simp
  have Ee2: "E * e \<le> 2 * e" using E(2) assms(3) by (intro mult_right_mono) simp_all
  have "\<bar>V - E * e\<bar> \<le> E * e / 2 ^ 53 + 2 powi (- 1075)"
    unfolding V_def using Ee by (rule round_real_rel_error)
  also have "\<dots> \<le> 2 * e / 2 ^ 53 + 2 powi (- 1075)" using Ee2 by (simp add: divide_right_mono)
  finally have v1: "\<bar>V - E * e\<bar> \<le> 2 * e / 2 ^ 53 + 2 powi (- 1075)" .
  have "\<bar>E * e - q * (2 - q) * e\<bar> = \<bar>E - q * (2 - q)\<bar> * e"
    using assms(3) by (simp add: abs_mult left_diff_distrib[symmetric])
  also have "\<dots> \<le> 4 / 2 ^ 53 * e" using eq assms(3) by (intro mult_right_mono) simp_all
  finally have v2: "\<bar>E * e - q * (2 - q) * e\<bar> \<le> 4 * e / 2 ^ 53" by simp
  have "6 * e / 2 ^ 53 \<le> 6 * 2 ^ 50 / (2 ^ 53 :: real)"
    using assms(4) by (intro divide_right_mono mult_left_mono) simp_all
  also have "\<dots> = 3 / 4" by simp
  finally have v3: "6 * e / 2 ^ 53 \<le> 3 / 4" .
  from v1 v2 v3 tiny_less_quarter have "\<bar>V - q * (2 - q) * e\<bar> < 1" by linarith
  then have "\<bar>\<lfloor>V\<rfloor> - \<lfloor>q * (2 - q) * e\<rfloor>\<bar> \<le> 1" by (rule floor_close)
  then show "\<bar>running_count e d n - \<lfloor>min (of_int n / d) 1 * (2 - min (of_int n / d) 1) * e\<rfloor>\<bar> \<le> 1"
    unfolding running_count_def V_def E_def P_def q_def .
  have "E * e \<le> 2 * 2 ^ 50" using E assms(3,4) by (intro mult_mono) simp_all
  then have "E * e \<le> of_int (2 ^ 51)" by simp
  with Ee have "V \<le> round_real (of_int (2 ^ 51))" unfolding V_def by (intro round_real_mono)
  also have "\<dots> = of_int (2 ^ 51)" by (intro round_real_int) simp_all
  finally have "V \<le> 2 ^ 51" by simp
  then show "round_real (eased_value (progress_value d n) * e) < overflow_threshold"
    unfolding V_def E_def P_def using two_pow_51_less by linarith
qed

lemma eased_value_le_one:
  assumes "0 \<le> P" "P \<le> 1"
  shows "eased_value P \<le> 1"
proof -
  define U where "U = round_real (2 - P)"
  from round_real_two_minus[OF assms] have u: "1 \<le> U" "U \<le> 2" unfolding U_def .
  have pu: "0 \<le> P * U" using assms(1) u(1) by simp
  have "P * U < 1 + 1 / 2 ^ 53"
  proof (cases "P = 1")
    case True
    then have "U = 1" by (simp add: U_def)
    with True show ?thesis by simp
  next
    case False
    then have lt: "P < 1" using assms(2) by simp
    have "\<bar>U - (2 - P)\<bar> \<le> 1 / 2 ^ 53"
      unfolding U_def using assms by (intro round_real_small_error) simp_all
    then have "U \<le> 2 - P + 1 / 2 ^ 53" by linarith
    then have "P * U \<le> P * (2 - P + 1 / 2 ^ 53)" using assms(1) by (intro mult_left_mono)
    also have "\<dots> = 1 - (1 - P) * (1 - P) + P * (1 / 2 ^ 53)" by (simp add: algebra_simps)
    also have "\<dots> \<le> 1 + P * (1 / 2 ^ 53)"
    proof -
      have "0 \<le> (1 - P) * (1 - P)" by simp
      then show ?thesis by linarith
    qed
    also have "\<dots> < 1 + 1 * (1 / 2 ^ 53)" using lt by simp
    finally show ?thesis by simp
  qed
  with pu show ?thesis unfolding eased_value_def U_def[symmetric] by (rule round_real_le_one)
qed

lemma progress_value_mono:
  assumes "0 \<le> n" "n \<le> n'" "0 < d"
  shows "progress_value d n \<le> progress_value d n'"
proof -
  have "of_int n / d \<le> of_int n' / d" using assms by (simp add: divide_right_mono)
  moreover have "0 \<le> of_int n / d" using assms by simp
  ultimately have "round_real (of_int n / d) \<le> round_real (of_int n' / d)" by (rule round_real_mono[rotated])
  then show ?thesis by (simp add: progress_value_def min_def)
qed

lemma eased_value_one [simp]: "eased_value 1 = 1"
  by (simp add: eased_value_def)

lemma eased_progress_mono:
  assumes "0 \<le> n" "n \<le> n'" "0 < d" "d \<le> 2 ^ 25"
  shows "eased_value (progress_value d n) \<le> eased_value (progress_value d n')"
proof -
  define P where "P = progress_value d n"
  define P' where "P' = progress_value d n'"
  have n': "0 \<le> n'" using assms by simp
  from progress_value_range[OF assms(1,3)] have p: "0 \<le> P" "P \<le> 1" unfolding P_def by simp_all
  from progress_value_range[OF n' assms(3)] have p': "0 \<le> P'" "P' \<le> 1" unfolding P'_def by simp_all
  have le: "P \<le> P'" unfolding P_def P'_def using assms(1-3) by (rule progress_value_mono)
  show ?thesis
  proof (cases "P' = 1")
    case True
    then show ?thesis using eased_value_le_one[OF p] unfolding P_def P'_def by simp
  next
    case False
    then have lt': "P' < 1" using p'(2) by simp
    show ?thesis
    proof (cases "n = n'")
      case True
      then show ?thesis by simp
    next
      case False
      then have nn: "n + 1 \<le> n'" using assms(2) by simp
      define x where "x = real_of_int n / d"
      define x' where "x' = real_of_int n' / d"
      define eps :: real where "eps = 1 / 2 ^ 53"
      have x0: "0 \<le> x" "0 \<le> x'" unfolding x_def x'_def using assms n' by simp_all
      have rx': "round_real x' < 1" using lt' unfolding P'_def progress_value_def x'_def by (simp add: min_def split: if_splits)
      have x'1: "x' < 1"
      proof (rule ccontr)
        assume "\<not> x' < 1"
        then have "round_real 1 \<le> round_real x'" by (intro round_real_mono) simp_all
        with rx' show False by simp
      qed
      have xx: "x \<le> x'" unfolding x_def x'_def using assms by (simp add: divide_right_mono)
      have rx: "round_real x \<le> round_real x'" using x0(1) xx by (rule round_real_mono)
      have Pe: "P = round_real x" "P' = round_real x'"
        using rx rx' unfolding P_def P'_def progress_value_def x_def x'_def by simp_all
      have ex: "\<bar>P - x\<bar> \<le> eps" "\<bar>P' - x'\<bar> \<le> eps"
        unfolding Pe eps_def using x0 xx x'1 by (intro round_real_small_error; simp)+
      have "real_of_int n' - real_of_int n \<ge> 1" using nn by linarith
      then have "1 / d \<le> (real_of_int n' - real_of_int n) / d" using assms(3) by (simp add: divide_right_mono)
      moreover have "1 / 2 ^ 25 \<le> 1 / d" using assms(3,4) by (intro frac_le) simp_all
      moreover have "(real_of_int n' - real_of_int n) / d = x' - x"
        unfolding x_def x'_def by (rule diff_divide_distrib)
      ultimately have gap: "1 / 2 ^ 25 \<le> x' - x" by linarith
      have "(1::real) / 2 ^ 26 + 2 * eps \<le> 1 / 2 ^ 25" unfolding eps_def by simp
      with gap ex have delta: "1 / 2 ^ 26 \<le> P' - P" by linarith
      define U where "U = round_real (2 - P)"
      define U' where "U' = round_real (2 - P')"
      have eu: "\<bar>U - (2 - P)\<bar> \<le> eps" "\<bar>U' - (2 - P')\<bar> \<le> eps"
        unfolding U_def U'_def eps_def using p p' by (intro round_real_small_error; simp)+
      from round_real_two_minus[OF p] have u: "1 \<le> U" unfolding U_def by simp
      have 1: "P * U \<le> P * (2 - P + eps)" using eu(1) p(1) by (intro mult_left_mono) linarith+
      have 2: "P' * (2 - P' - eps) \<le> P' * U'" using eu(2) p'(1) by (intro mult_left_mono) linarith+
      have "1 / 2 ^ 26 \<le> 2 - P - P'" using delta lt' by linarith
      with delta have "(1 / 2 ^ 26) * (1 / 2 ^ 26) \<le> (P' - P) * (2 - P - P')"
        by (intro mult_mono) simp_all
      moreover have "eps * (P + P') \<le> eps * 2" using p p' unfolding eps_def by (intro mult_left_mono) simp_all
      moreover have "eps * 2 = (1 / 2 ^ 26) * (1 / 2 ^ 26)" unfolding eps_def by simp
      ultimately have "eps * (P + P') \<le> (P' - P) * (2 - P - P')" by linarith
      then have 3: "P * (2 - P + eps) \<le> P' * (2 - P' - eps)" by (simp add: algebra_simps)
      from 1 2 3 have "P * U \<le> P' * U'" by linarith
      moreover have "0 \<le> P * U" using p(1) u by simp
      ultimately have "round_real (P * U) \<le> round_real (P' * U')" by (rule round_real_mono[rotated])
      then show ?thesis unfolding eased_value_def P_def[symmetric] P'_def[symmetric] U_def U'_def .
    qed
  qed
qed

lemma running_count_mono:
  assumes "0 \<le> n" "n \<le> n'" "0 < d" "d \<le> 2 ^ 25" "0 \<le> e"
  shows "running_count e d n \<le> running_count e d n'"
proof -
  from progress_value_range[OF assms(1,3)] have p: "0 \<le> progress_value d n" "progress_value d n \<le> 1" by simp_all
  have E0: "0 \<le> eased_value (progress_value d n)" using p by (intro eased_value_range)
  have "eased_value (progress_value d n) * e \<le> eased_value (progress_value d n') * e"
    using eased_progress_mono[OF assms(1-4)] assms(5) by (intro mult_right_mono)
  moreover have "0 \<le> eased_value (progress_value d n) * e" using E0 assms(5) by simp
  ultimately have "round_real (eased_value (progress_value d n) * e)
      \<le> round_real (eased_value (progress_value d n') * e)" by (rule round_real_mono[rotated])
  then show ?thesis unfolding running_count_def by (rule floor_mono)
qed

lemma running_count_bounds:
  assumes "0 \<le> n" "0 < d" "0 \<le> e" "is_double e"
  shows "0 \<le> running_count e d n" "of_int (running_count e d n) \<le> e"
    "round_real (eased_value (progress_value d n) * e) < overflow_threshold"
proof -
  define E where "E = eased_value (progress_value d n)"
  from progress_value_range[OF assms(1,2)] have p: "0 \<le> progress_value d n" "progress_value d n \<le> 1" by simp_all
  have E: "0 \<le> E" "E \<le> 1" unfolding E_def using p by (intro eased_value_range eased_value_le_one; simp)+
  have Ee: "0 \<le> E * e" "E * e \<le> e" using E assms(3) by (simp_all add: mult_left_le_one_le)
  have r0: "0 \<le> round_real (E * e)" using Ee(1) by (rule round_real_nonneg)
  have "round_real (E * e) \<le> round_real e" using Ee by (rule round_real_mono)
  also have "\<dots> = e" using assms(4) by (simp add: is_double_def)
  finally have re: "round_real (E * e) \<le> e" .
  show "0 \<le> running_count e d n" unfolding running_count_def E_def[symmetric] using r0 by simp
  show "of_int (running_count e d n) \<le> e" unfolding running_count_def E_def[symmetric] using re by linarith
  show "round_real (eased_value (progress_value d n) * e) < overflow_threshold"
    unfolding E_def[symmetric] using re assms(3,4) by (simp add: is_double_def)
qed

section \<open>The count of single frames\<close>




lemma running_count_999999987: "running_count 1000 1000000000 999999987 = 999"
proof -
  have Q: "round_real (999999987 / 1000000000) = 4503599568823701 / 4503599627370496"
    by (rule round_real_evalI[where k="-1" and n="9007199137647402"]) simp_all
  have P: "progress_value 1000000000 999999987 = 4503599568823701 / 4503599627370496"
    unfolding progress_value_def using Q by simp
  have U: "round_real (2 - 4503599568823701 / 4503599627370496) = 4503599685917291 / 4503599627370496"
    by (rule round_real_evalI[where k="0" and n="4503599685917291"]) simp_all
  have E: "round_real (4503599568823701 / 4503599627370496 * (4503599685917291 / 4503599627370496)) = 4503599627370495 / 4503599627370496"
    by (rule round_real_evalI[where k="-1" and n="9007199254740990"]) simp_all
  have V: "round_real (4503599627370495 / 4503599627370496 * 1000) = 4398046511103999 / 4398046511104"
    by (rule round_real_evalI[where k="9" and n="8796093022207998"]) simp_all
  show ?thesis
    unfolding running_count_def P eased_value_def U E V by simp
qed

lemma running_count_999999988: "running_count 1000 1000000000 999999988 = 1000"
proof -
  have Q: "round_real (999999988 / 1000000000) = 9007199146654601 / 9007199254740992"
    by (rule round_real_evalI[where k="-1" and n="9007199146654601"]) simp_all
  have P: "progress_value 1000000000 999999988 = 9007199146654601 / 9007199254740992"
    unfolding progress_value_def using Q by simp
  have U: "round_real (2 - 9007199146654601 / 9007199254740992) = 1125899920353423 / 1125899906842624"
    by (rule round_real_tieI[where k="0" and f="4503599681413691" and n="4503599681413692"]) simp_all
  have E: "round_real (9007199146654601 / 9007199254740992 * (1125899920353423 / 1125899906842624)) = 1"
    by (rule round_real_evalI[where k="-1" and n="9007199254740992"]) simp_all
  have V: "round_real (1 * 1000) = 1000"
    by (rule round_real_evalI[where k="9" and n="8796093022208000"]) simp_all
  show ?thesis
    unfolding running_count_def P eased_value_def U E V by simp
qed

lemma running_count_999999989: "running_count 1000 1000000000 999999989 = 999"
proof -
  have Q: "round_real (999999989 / 1000000000) = 1125899894457725 / 1125899906842624"
    by (rule round_real_evalI[where k="-1" and n="9007199155661800"]) simp_all
  have P: "progress_value 1000000000 999999989 = 1125899894457725 / 1125899906842624"
    unfolding progress_value_def using Q by simp
  have U: "round_real (2 - 1125899894457725 / 1125899906842624) = 1125899919227523 / 1125899906842624"
    by (rule round_real_evalI[where k="0" and n="4503599676910092"]) simp_all
  have E: "round_real (1125899894457725 / 1125899906842624 * (1125899919227523 / 1125899906842624)) = 9007199254740991 / 9007199254740992"
    by (rule round_real_evalI[where k="-1" and n="9007199254740991"]) simp_all
  have V: "round_real (9007199254740991 / 9007199254740992 * 1000) = 8796093022207999 / 8796093022208"
    by (rule round_real_evalI[where k="9" and n="8796093022207999"]) simp_all
  show ?thesis
    unfolding running_count_def P eased_value_def U E V by simp
qed

section \<open>Frames of the counter\<close>

lemma animation_frame_none:
  "frame_requests inst = [] \<Longrightarrow> animation_frame p t inst = inst"
  by (simp add: animation_frame_def)

lemma animation_frame_single:
  "frame_requests inst = [c] \<Longrightarrow>
   animation_frame p t inst = updateCounter p c t (inst\<lparr>frame_requests := []\<rparr>)"
  by (simp add: animation_frame_def)

lemma displayed_counts_idle:
  "frame_requests inst = [] \<Longrightarrow> displayed_counts p inst ts = replicate (length ts) (count inst)"
  by (induction ts) (simp_all add: animation_frame_none Let_def)

lemma run_frames_idle:
  "frame_requests inst = [] \<Longrightarrow> run_frames p inst ts = inst"
  by (induction ts) (simp_all add: animation_frame_none)


lemma counter_mount_eq:
  "counter_mount =
     \<lparr>count = Num 0, hasAnimated = False, counter_mounted = True, observer = Some False,
      frame_requests = []\<rparr>"
  by (simp add: counter_mount_def counter_effect_def)

lemma started_instance:
  "intersection_callback p s [True] counter_mount =
     \<lparr>count = Num 0, hasAnimated = True, counter_mounted = True, observer = None,
      frame_requests = [\<lparr>startTime = s, endTime = js_add (Num (of_int s)) (duration p)\<rparr>]\<rparr>"
  by (simp add: intersection_callback_def counter_mount_def observer_entry_def
      animateCounter_def setHasAnimated_def requestAnimationFrame_def counter_effect_def Let_def)

lemma animation_frame_value:
  assumes "counter_mounted inst" "frame_requests inst = [c]"
  shows "animation_frame p t inst =
     inst\<lparr>count := frame_value p c t,
          frame_requests := (if js_lt (Num (of_int t)) (endTime c) then [c] else [])\<rparr>"
  using assms
  by (simp add: animation_frame_single updateCounter_def frame_value_def Let_def setCount_def
      requestAnimationFrame_def)

lemma animation_frame_requests:
  assumes "frame_requests inst = [c]"
  shows "frame_requests (animation_frame p t inst) =
     (if js_lt (Num (of_int t)) (endTime c) then [c] else [])"
  using assms
  by (simp add: animation_frame_single updateCounter_def Let_def setCount_def
      requestAnimationFrame_def)

lemma displayed_running:
  shows "counter_mounted inst \<Longrightarrow> frame_requests inst = [c] \<Longrightarrow>
    \<forall>t\<in>set ts. js_lt (Num (of_int t)) (endTime c) \<Longrightarrow>
    displayed_counts p inst ts = map (frame_value p c) ts \<and>
    counter_mounted (run_frames p inst ts) \<and> frame_requests (run_frames p inst ts) = [c]"
proof (induction ts arbitrary: inst)
  case Nil
  then show ?case by simp
next
  case (Cons t ts)
  have fr: "animation_frame p t inst = inst\<lparr>count := frame_value p c t\<rparr>"
    using animation_frame_value[OF Cons.prems(1,2), of p t] Cons.prems(2,3) by simp
  have "counter_mounted (inst\<lparr>count := frame_value p c t\<rparr>)"
       "frame_requests (inst\<lparr>count := frame_value p c t\<rparr>) = [c]"
    using Cons.prems by simp_all
  from Cons.IH[OF this] Cons.prems(3) show ?case
    by (simp add: fr Let_def)
qed



lemma js_le_Num [simp]: "js_le (Num a) (Num b) = (a \<le> b)"
  by (simp add: js_le_def finite_part_def)

lemma js_lt_Num [simp]: "js_lt (Num a) (Num b) = (a < b)"
  by (simp add: js_lt_def finite_part_def)

lemma js_le_trans: "js_le a b \<Longrightarrow> js_le b c \<Longrightarrow> js_le a c"
  by (cases a; cases b; cases c) (simp_all add: js_le_def finite_part_def)

lemma sorted_wrt_constant:
  "sorted_wrt js_le (replicate n (Num e))"
  by (induction n) simp_all

lemma end_time_whole:
  assumes "0 \<le> s" "0 < D" "s + D \<le> 2 ^ 53"
  shows "js_add (Num (of_int s)) (Num (of_int D)) = Num (of_int (s + D))"
  using end_time_int[OF assms] by (simp add: end_time_def)

lemma end_time_2000 [simp]: "js_add (Num 0) (Num 2000) = Num 2000"
  using end_time_whole[of 0 2000] by simp

lemma displayed_started:
  assumes "\<forall>t\<in>set ts. js_lt (Num (of_int t)) (js_add (Num (of_int s)) (duration p))"
  shows "displayed_counts p (intersection_callback p s [True] counter_mount) ts =
     map (frame_value p \<lparr>startTime = s, endTime = js_add (Num (of_int s)) (duration p)\<rparr>) ts"
proof -
  let ?c = "\<lparr>startTime = s, endTime = js_add (Num (of_int s)) (duration p)\<rparr>"
  let ?i = "intersection_callback p s [True] counter_mount"
  have m: "counter_mounted ?i" and f: "frame_requests ?i = [?c]"
    by (simp_all add: started_instance)
  have b: "\<forall>t'\<in>set ts. js_lt (Num (of_int t')) (endTime ?c)"
    using assms by simp
  from displayed_running[OF m f b] show ?thesis by simp
qed

lemma frame_value_eval:
  assumes "duration p = Num d" "0 < d" "end' p = Num e" "0 \<le> e" "e \<le> 2 ^ 50"
    and "0 \<le> s" "s \<le> t" "t \<le> 2 ^ 53"
    and "js_lt (Num (of_int t)) (js_add (Num (of_int s)) (duration p))"
    and "running_count e d (t - s) = k"
  shows "frame_value p \<lparr>startTime = s, endTime = js_add (Num (of_int s)) (duration p)\<rparr> t
            = Num (of_int k)"
proof -
  have n: "0 \<le> t - s" using assms(7) by simp
  from running_count_within_one(2)[OF n assms(2,4,5)]
  have b: "round_real (eased_value (progress_value d (t - s)) * e) < overflow_threshold" .
  have r: "js_lt (Num (of_int t)) (end_time s d)"
    using assms(9) by (simp add: end_time_def assms(1))
  show ?thesis
    using frame_value_running[OF assms(1,2,3,4) assms(6,7,8) refl b] r assms(10) by simp
qed





text \<open>
  The frames that the code keeps running are not all the frames sampled before the
  duration has elapsed: \<open>endTime\<close> is a rounded sum. With a start at
  \<open>Date.now() = 1700000000000\<close> and the duration \<open>2000 + 2^-20\<close> (\<open>2097152001 / 1048576\<close>)
  the sum is rounded down to \<open>1700000002000\<close>, and the frame sampled 2000 ms after the start
  displays \<open>end\<close> while \<open>t - startTime < duration\<close>. This is why the amended claim
  speaks of the frames that pass the code's own test.
\<close>

lemma end_time_rounds_down:
  "js_add (Num 1700000000000) (Num (2097152001 / 1048576)) = Num 1700000002000"
proof -
  have r: "round_real (1782579202097152001 / 1048576) = 1700000002000"
    by (rule round_real_evalI[where k = 40 and n = 6963200008192000]) simp_all
  have "1700000002000 < (2::real) ^ 53" by simp
  then have "(1700000002000::real) < overflow_threshold" using threshold_gt by linarith
  then show ?thesis
    by (simp add: js_add_def is_inf_def finite_part_def Let_def round_double_def r)
qed

lemma counter_early_snap:
  "displayed_counts \<lparr>end' = Num 1000, duration = Num (2097152001 / 1048576)\<rparr>
     (intersection_callback \<lparr>end' = Num 1000, duration = Num (2097152001 / 1048576)\<rparr>
        1700000000000 [True] counter_mount)
     [1700000002000] = [Num 1000]
   \<and> real_of_int (1700000002000 - 1700000000000) < 2097152001 / 1048576"
proof -
  let ?p = "\<lparr>end' = Num 1000, duration = Num (2097152001 / 1048576)\<rparr>"
  let ?c = "\<lparr>startTime = 1700000000000, endTime = Num 1700000002000\<rparr>"
  let ?i = "intersection_callback ?p 1700000000000 [True] counter_mount"
  have m: "counter_mounted ?i" and f: "frame_requests ?i = [?c]"
    by (simp_all add: started_instance end_time_rounds_down)
  have "count (animation_frame ?p 1700000002000 ?i) = Num 1000"
    by (simp add: animation_frame_value[OF m f] frame_value_def)
  then show ?thesis by (simp add: Let_def)
qed

section \<open>Monotonicity of the displayed count\<close>

lemma end_time_1e9 [simp]: "js_add (Num 0) (Num 1000000000) = Num 1000000000"
  using end_time_whole[of 0 1000000000] by simp

lemma is_double_whole:
  assumes "0 \<le> k" "k \<le> 2 ^ 53"
  shows "is_double (of_int k)"
proof -
  have "real_of_int k \<le> 2 ^ 53" using assms(2) by (rule real_le_2p53)
  then have "\<bar>real_of_int k\<bar> < overflow_threshold" using assms(1) threshold_gt by simp
  then show ?thesis using round_real_int[OF assms] by (simp add: is_double_def)
qed

lemma frame_value_cases:
  assumes "duration p = Num d" "0 < d" "end' p = Num e" "0 < e" "is_double e"
    and "0 \<le> s" "s \<le> t" "t \<le> 2 ^ 53"
    and c: "c = \<lparr>startTime = s, endTime = js_add (Num (of_int s)) (duration p)\<rparr>"
  shows "frame_value p c t =
     (if js_lt (Num (of_int t)) (end_time s d) then Num (of_int (running_count e d (t - s)))
      else Num e)"
proof -
  have n: "0 \<le> t - s" and e0: "0 \<le> e" using assms by simp_all
  from running_count_bounds(3)[OF n assms(2) e0 assms(5)]
  have b: "round_real (eased_value (progress_value d (t - s)) * e) < overflow_threshold" .
  show ?thesis by (rule frame_value_running[OF assms(1,2,3) e0 assms(6,7,8) c b])
qed

lemma frame_value_mono:
  assumes "duration p = Num d" "0 < d" "d \<le> 2 ^ 25" "end' p = Num e" "0 < e" "is_double e"
    and "0 \<le> s" "s \<le> t" "t \<le> t'" "t' \<le> 2 ^ 53"
    and c: "c = \<lparr>startTime = s, endTime = js_add (Num (of_int s)) (duration p)\<rparr>"
  shows "js_le (frame_value p c t) (frame_value p c t')"
proof -
  have st': "s \<le> t'" and t53: "t \<le> 2 ^ 53" and e0: "0 \<le> e" and n: "0 \<le> t - s"
    and nn: "t - s \<le> t' - s"
    using assms by simp_all
  note v = frame_value_cases[OF assms(1,2,4,5,6,7) assms(8) t53 c]
  note v' = frame_value_cases[OF assms(1,2,4,5,6,7) st' assms(10) c]
  show ?thesis
  proof (cases "js_lt (Num (of_int t')) (end_time s d)")
    case True
    then have "js_lt (Num (of_int t)) (end_time s d)"
      by (rule running_antimono[OF assms(7,2,9)])
    then show ?thesis
      using True running_count_mono[OF n nn assms(2,3) e0] by (simp add: v v')
  next
    case False
    then show ?thesis
      using running_count_bounds(2)[OF n assms(2) e0 assms(6)] by (simp add: v v')
  qed
qed

lemma frame_value_nonneg:
  assumes "duration p = Num d" "0 < d" "end' p = Num e" "0 < e" "is_double e"
    and "0 \<le> s" "s \<le> t" "t \<le> 2 ^ 53"
    and c: "c = \<lparr>startTime = s, endTime = js_add (Num (of_int s)) (duration p)\<rparr>"
  shows "js_le (Num 0) (frame_value p c t)"
proof -
  have n: "0 \<le> t - s" and e0: "0 \<le> e" using assms by simp_all
  show ?thesis
    using running_count_bounds(1)[OF n assms(2) e0 assms(5)] assms(4)
    by (simp add: frame_value_cases[OF assms])
qed

lemma displayed_sorted_from:
  assumes mono: "\<And>t t'. t \<in> D \<Longrightarrow> t' \<in> D \<Longrightarrow> t \<le> t' \<Longrightarrow>
                   js_le (frame_value p c t) (frame_value p c t')"
    and e: "end' p = Num e"
  shows "counter_mounted inst \<Longrightarrow> frame_requests inst = [c] \<Longrightarrow> sorted ts \<Longrightarrow>
     set ts \<subseteq> D \<Longrightarrow> \<forall>t\<in>set ts. js_le (count inst) (frame_value p c t) \<Longrightarrow>
     sorted_wrt js_le (count inst # displayed_counts p inst ts)"
proof (induction ts arbitrary: inst)
  case Nil
  then show ?case by simp
next
  case (Cons t ts)
  let ?i = "animation_frame p t inst"
  have fr: "?i = inst\<lparr>count := frame_value p c t,
          frame_requests := (if js_lt (Num (of_int t)) (endTime c) then [c] else [])\<rparr>"
    by (rule animation_frame_value[OF Cons.prems(1,2)])
  have cnt: "count ?i = frame_value p c t" by (simp add: fr)
  have head: "js_le (count inst) (count ?i)"
    using Cons.prems(5) by (simp add: cnt)
  have rest: "sorted_wrt js_le (count ?i # displayed_counts p ?i ts)"
  proof (cases "js_lt (Num (of_int t)) (endTime c)")
    case True
    have a: "counter_mounted ?i" "frame_requests ?i = [c]"
      using Cons.prems(1) True by (simp_all add: fr)
    have b: "sorted ts" "set ts \<subseteq> D" using Cons.prems(3,4) by simp_all
    have "\<forall>t'\<in>set ts. js_le (count ?i) (frame_value p c t')"
    proof
      fix t' assume t': "t' \<in> set ts"
      then have "t \<le> t'" "t \<in> D" "t' \<in> D" using Cons.prems(3,4) by auto
      then show "js_le (count ?i) (frame_value p c t')"
        unfolding cnt using mono by blast
    qed
    from Cons.IH[OF a b this] show ?thesis .
  next
    case False
    then have idle: "frame_requests ?i = []" by (simp add: fr)
    have "count ?i = Num e" using False e by (simp add: fr frame_value_def)
    then show ?thesis
      by (simp add: displayed_counts_idle[OF idle] sorted_wrt_constant)
  qed
  have "\<forall>y\<in>set (displayed_counts p ?i ts). js_le (count inst) y"
    using rest head js_le_trans by auto
  then show ?case
    using head rest by (simp add: Let_def)
qed

text \<open>
  Claim C8 (counter monotonicity), as amended. For a finite end value above zero, a
  finite duration above zero of at most \<open>2^25\<close> ms (a little over nine hours), a run
  started at \<open>s \<ge> 0\<close> and every non-decreasing sequence of frame times from \<open>s\<close> on,
  none above \<open>2^53\<close>, the sequence of the displayed values, led by the 0 that is
  displayed before the first frame, is non-decreasing under the language's \<open><=\<close>.
\<close>

theorem counter_monotone:
  assumes "end' p = Num e" "0 < e" "is_double e"
    and "duration p = Num d" "0 < d" "d \<le> 2 ^ 25"
    and "0 \<le> s" "sorted ts" "\<forall>t\<in>set ts. s \<le> t \<and> t \<le> 2 ^ 53"
  shows "sorted_wrt js_le
     (count (intersection_callback p s [True] counter_mount) #
      displayed_counts p (intersection_callback p s [True] counter_mount) ts)"
proof -
  let ?c = "\<lparr>startTime = s, endTime = js_add (Num (of_int s)) (duration p)\<rparr>"
  let ?i0 = "intersection_callback p s [True] counter_mount"
  let ?D = "{t. s \<le> t \<and> t \<le> 2 ^ 53}"
  have m: "counter_mounted ?i0" and f: "frame_requests ?i0 = [?c]" and z: "count ?i0 = Num 0"
    by (simp_all add: started_instance)
  have mono: "js_le (frame_value p ?c t) (frame_value p ?c t')"
    if "t \<in> ?D" "t' \<in> ?D" "t \<le> t'" for t t'
    using that frame_value_mono[OF assms(4,5,6,1,2,3,7) _ _ _ refl, of t t'] by simp
  have sub: "set ts \<subseteq> ?D" using assms(9) by auto
  have nonneg: "\<forall>t\<in>set ts. js_le (count ?i0) (frame_value p ?c t)"
    unfolding z using assms(9) frame_value_nonneg[OF assms(4,5,1,2,3,7) _ _ refl] by blast
  show ?thesis
    by (rule displayed_sorted_from[where D = ?D, OF mono assms(1) m f assms(8) sub nonneg])
qed

theorem counter_monotone_witness:
  "(0::real) < 1000 \<and> is_double 1000 \<and> (2000::real) \<le> 2 ^ 25 \<and> sorted [500, 1000, 2000, 2016::int] \<and>
   sorted_wrt js_le
     (count (intersection_callback \<lparr>end' = Num 1000, duration = Num 2000\<rparr> 0 [True] counter_mount) #
      displayed_counts \<lparr>end' = Num 1000, duration = Num 2000\<rparr>
       (intersection_callback \<lparr>end' = Num 1000, duration = Num 2000\<rparr> 0 [True] counter_mount)
       [500, 1000, 2000, 2016])"
  using counter_monotone [of "\<lparr>end' = Num 1000, duration = Num 2000\<rparr>" 1000 2000 0
      "[500, 1000, 2000, 2016]"] is_double_whole [of 1000]
  by (simp del: displayed_counts.simps)

text \<open>
  The claim as stated, for every configuration with \<open>end > 0\<close>, fails: the rounded
  ease-out product is not monotone next to 1. With \<open>end = 1000\<close> and
  \<open>duration = 1000000000\<close> the frames sampled 999999987, 999999988 and 999999989 ms after
  the start display 999, 1000 and 999.
\<close>

theorem counter_monotone_counterexample:
  "displayed_counts \<lparr>end' = Num 1000, duration = Num 1000000000\<rparr>
     (intersection_callback \<lparr>end' = Num 1000, duration = Num 1000000000\<rparr> 0 [True] counter_mount)
     [999999987, 999999988, 999999989] = [Num 999, Num 1000, Num 999]
   \<and> \<not> sorted_wrt js_le [Num 999, Num 1000, Num 999]"
proof -
  let ?p = "\<lparr>end' = Num 1000, duration = Num 1000000000\<rparr>"
  let ?c = "\<lparr>startTime = 0, endTime = js_add (Num (of_int 0)) (duration ?p)\<rparr>"
  have 1: "frame_value ?p ?c 999999987 = Num (of_int 999)"
    by (rule frame_value_eval[where d = 1000000000 and e = 1000])
      (simp_all add: running_count_999999987)
  have 2: "frame_value ?p ?c 999999988 = Num (of_int 1000)"
    by (rule frame_value_eval[where d = 1000000000 and e = 1000])
      (simp_all add: running_count_999999988)
  have 3: "frame_value ?p ?c 999999989 = Num (of_int 999)"
    by (rule frame_value_eval[where d = 1000000000 and e = 1000])
      (simp_all add: running_count_999999989)
  have "displayed_counts ?p (intersection_callback ?p 0 [True] counter_mount)
          [999999987, 999999988, 999999989] = map (frame_value ?p ?c) [999999987, 999999988, 999999989]"
    by (rule displayed_started) simp
  then show ?thesis using 1 2 3 by simp
qed

text \<open>
  It fails for an infinite end value as well, which is above zero: the frame sampled at
  the start displays \<open>0 * Infinity\<close>, which is NaN, after the initial 0.
\<close>

lemma counter_infinite_end:
  "count (intersection_callback \<lparr>end' = PosInf, duration = Num 2000\<rparr> 0 [True] counter_mount) #
   displayed_counts \<lparr>end' = PosInf, duration = Num 2000\<rparr>
     (intersection_callback \<lparr>end' = PosInf, duration = Num 2000\<rparr> 0 [True] counter_mount) [0]
     = [Num 0, NaN]
   \<and> \<not> sorted_wrt js_le [Num 0, NaN]"
proof -
  let ?p = "\<lparr>end' = PosInf, duration = Num 2000\<rparr>"
  let ?c = "\<lparr>startTime = 0, endTime = Num 2000\<rparr>"
  let ?i = "intersection_callback ?p 0 [True] counter_mount"
  have m: "counter_mounted ?i" and f: "frame_requests ?i = [?c]" and z: "count ?i = Num 0"
    by (simp_all add: started_instance)
  have s: "js_sub (Num 0) (Num 0) = Num 0" using js_sub_timestamps[of 0 0] by simp
  have q: "js_min (js_div (Num 0) (Num 2000)) (Num 1) = Num 0"
    using js_progress[of 0 2000] by (simp add: progress_value_def)
  have e: "easeOutQuad (Num 0) = Num 0"
    using js_easeOutQuad[of 0] by (simp add: eased_value_def)
  have "frame_value ?p ?c 0 = NaN"
    by (simp add: frame_value_def s q e js_mul_def mul_with_def is_zero_def is_inf_def
        sign_bit_def Let_def)
  then have "count (animation_frame ?p 0 ?i) = NaN"
    by (simp add: animation_frame_value[OF m f])
  then show ?thesis by (simp add: z Let_def js_le_def)
qed

section \<open>Properties of the tilt handler\<close>


text \<open>
  The bounds proved below for the exact angle hold for the angle in doubles: with a
  centre \<open>c\<close> and a maximum \<open>m\<close> that are doubles, rounding the difference, the
  quotient and the product leaves the angle within \<open>[-m, m]\<close>.
\<close>

lemma is_double_one: "is_double 1"
  using is_double_whole[of 1] by simp

lemma tilt_angle_rounded:
  assumes "is_double c" "0 < c" "is_double m" "0 \<le> m" "0 \<le> x" "x \<le> 2 * c"
  shows "\<bar>round_real (round_real (round_real (x - c) / c) * m)\<bar> \<le> m"
    and "\<bar>round_real (round_real (round_real (x - c) / c) * (- m))\<bar> \<le> m"
proof -
  define d where "d = round_real (x - c)"
  define q where "q = round_real (d / c)"
  have "- c \<le> d \<and> d \<le> c"
    unfolding d_def using assms(5,6) by (intro round_real_between[OF assms(1)]) simp_all
  then have "- 1 \<le> d / c \<and> d / c \<le> 1" using assms(2) by (simp add: field_simps)
  then have "- 1 \<le> q \<and> q \<le> 1"
    unfolding q_def using round_real_between[OF is_double_one, of "d / c"] by simp
  then have "\<bar>q\<bar> \<le> 1" by (simp add: abs_le_iff)
  then have "\<bar>q\<bar> * m \<le> 1 * m" using assms(4) by (intro mult_right_mono) simp_all
  then have "\<bar>q * m\<bar> \<le> m" using assms(4) by (simp add: abs_mult)
  then have "- m \<le> q * m" "q * m \<le> m" by (simp_all add: abs_le_iff)
  from round_real_between[OF assms(3) this]
  have b: "\<bar>round_real (q * m)\<bar> \<le> m" by (simp add: abs_le_iff)
  then show "\<bar>round_real (round_real (round_real (x - c) / c) * m)\<bar> \<le> m"
    by (simp add: q_def d_def)
  have "round_real (q * (- m)) = - round_real (q * m)"
    using round_real_minus[of "q * m"] by simp
  then show "\<bar>round_real (round_real (round_real (x - c) / c) * (- m))\<bar> \<le> m"
    using b by (simp add: q_def d_def)
qed








section \<open>Properties of the theme store\<close>

text \<open>
  Claim C7 (theme round-trip). After \<open>setTheme v\<close>, for \<open>v\<close> light or dark, the
  store holds the name of \<open>v\<close> under the key \<open>theme\<close>, and a fresh provider
  initialised on that store ends with theme \<open>v\<close>, whatever the system colour-scheme
  preference \<open>d\<close> is at that moment: the outcome is a function of the stored value.
\<close>

theorem theme_round_trip:
  "localStorage (fst (setTheme v (b, st))) ''theme'' = Some (theme_name v) \<and>
   provider_init ((fst (setTheme v (b, st)))\<lparr>prefers_dark := d\<rparr>, provider_initial) =
     (applyTheme (theme_name v) ((fst (setTheme v (b, st)))\<lparr>prefers_dark := d\<rparr>),
      \<lparr>theme = theme_name v, mounted = True\<rparr>) \<and>
   theme (snd (provider_init ((fst (setTheme v (b, st)))\<lparr>prefers_dark := d\<rparr>, provider_initial)))
     = theme_name v"
  by (cases v) (simp_all add: setTheme_def provider_init_def provider_initial_def applyTheme_def Let_def)

text \<open>
  Claim C10 (useTheme guard). Outside a provider the context is undefined and the hook
  throws its error; inside one, where the provider has rendered the context value for
  its children, the hook returns that value: the theme, \<open>toggleTheme\<close> and
  \<open>setTheme\<close> of the provider.
\<close>

theorem useTheme_guard:
  "useTheme None = Inl (Error ''useTheme must be used within a ThemeProvider'') \<and>
   useTheme (Some c') = Inr c' \<and>
   (ThemeProvider st = Provide c \<longrightarrow>
      useTheme (Some c) = Inr c \<and> context_theme c = theme st \<and>
      context_toggleTheme c = toggleTheme st \<and> context_setTheme c = setTheme)"
  by (auto simp add: useTheme_def ThemeProvider_def split: if_splits)

theorem useTheme_guard_witness:
  "useTheme None = Inl (Error ''useTheme must be used within a ThemeProvider'') \<and>
   ThemeProvider \<lparr>theme = ''dark'', mounted = True\<rparr> =
     Provide \<lparr>context_theme = ''dark'',
       context_toggleTheme = toggleTheme \<lparr>theme = ''dark'', mounted = True\<rparr>,
       context_setTheme = setTheme\<rparr> \<and>
   useTheme (Some \<lparr>context_theme = ''dark'',
       context_toggleTheme = toggleTheme \<lparr>theme = ''dark'', mounted = True\<rparr>,
       context_setTheme = setTheme\<rparr>) =
     Inr \<lparr>context_theme = ''dark'',
       context_toggleTheme = toggleTheme \<lparr>theme = ''dark'', mounted = True\<rparr>,
       context_setTheme = setTheme\<rparr>"
  using useTheme_guard [of _ "\<lparr>theme = ''dark'', mounted = True\<rparr>"
      "\<lparr>context_theme = ''dark'',
       context_toggleTheme = toggleTheme \<lparr>theme = ''dark'', mounted = True\<rparr>,
       context_setTheme = setTheme\<rparr>"]
  by (simp add: ThemeProvider_def)

section \<open>Properties of the typing animator\<close>

lemma typing_inv_iff:
  "typing_inv p inst =
     (typing_mounted inst \<and>
      (\<exists>i. currentTextIndex inst = Some i \<and> i < length (texts p) \<and>
           prefix (currentText inst) (texts p ! i)) \<and>
      (case pending_timeout inst of
         None \<Rightarrow> True
       | Some (cb, delay) \<Rightarrow> typing_effect p inst = Schedule cb delay))"
  by (auto simp add: typing_inv_def split: option.splits)

lemma typing_effect_pending [simp]:
  "typing_effect p (inst\<lparr>pending_timeout := x\<rparr>) = typing_effect p inst"
  by (simp add: typing_effect_def Let_def)

lemma typing_inv_initial: "texts p \<noteq> [] \<Longrightarrow> typing_inv p typing_initial"
  by (simp add: typing_inv_iff typing_initial_def)

lemma proper_prefix_length:
  "prefix xs ys \<Longrightarrow> xs \<noteq> ys \<Longrightarrow> length xs < length ys"
  by (simp add: prefix_length_less strict_prefix_def)

lemma typing_step_inv:
  assumes "typing_inv p inst"
  shows "\<exists>inst'. typing_step p inst = Inr inst' \<and> typing_inv p inst' \<and>
     (\<forall>d. pending_timeout inst = Some (TypingTimeout, d) \<longrightarrow>
        length (currentText inst') = length (currentText inst) + 1) \<and>
     (\<forall>d. pending_timeout inst = Some (DeletingTimeout, d) \<longrightarrow>
        length (currentText inst') + 1 = length (currentText inst)) \<and>
     (\<not> isDeleting inst \<longrightarrow> length (currentText inst) \<le> length (currentText inst')) \<and>
     (isDeleting inst \<longrightarrow> length (currentText inst') \<le> length (currentText inst))"
proof -
  from assms obtain i where m: "typing_mounted inst"
    and i: "currentTextIndex inst = Some i" "i < length (texts p)"
    and pre: "prefix (currentText inst) (texts p ! i)"
    by (auto simp: typing_inv_iff)
  have full': "texts_at (texts p) (Some i) = Some (texts p ! i)"
    using i by (simp add: texts_at_def)
  have full: "texts_at (texts p) (currentTextIndex inst) = Some (texts p ! i)"
    using i full' by simp
  show ?thesis
  proof (cases "pending_timeout inst")
    case None
    show ?thesis
    proof (cases "typing_effect p inst")
      case (Schedule cb delay)
      then show ?thesis using None m i pre
        by (auto simp: typing_step_def run_effect_def typing_inv_iff)
    next
      case StartPause
      then show ?thesis using None m i pre
        by (auto simp: typing_step_def run_effect_def typing_inv_iff typing_effect_def Let_def full)
    next
      case NextText
      then have e: "currentText inst = []" "isDeleting inst"
        by (auto simp: typing_effect_def Let_def full split: if_splits)
      have "0 < length (texts p)" using i(2) by (cases "texts p") simp_all
      then have "(i + 1) mod length (texts p) < length (texts p)" by (rule mod_less_divisor)
      then show ?thesis using None m i NextText e
        by (auto simp: typing_step_def run_effect_def typing_inv_iff next_index_def
            typing_effect_def Let_def texts_at_def)
    next
      case Nothing
      then show ?thesis using None m i pre
        by (auto simp: typing_step_def run_effect_def typing_inv_iff)
    qed
  next
    case (Some cd)
    obtain cb d where cd: "cd = (cb, d)" by (cases cd)
    have eff: "typing_effect p inst = Schedule cb d"
      using assms Some cd by (simp add: typing_inv_iff)
    show ?thesis
    proof (cases cb)
      case PauseTimeout
      then have "\<not> isDeleting inst \<or> isDeleting inst" by simp
      show ?thesis using Some cd PauseTimeout m i pre
        by (auto simp: typing_step_def run_callback_def typing_inv_iff)
    next
      case TypingTimeout
      from eff TypingTimeout have ne: "currentText inst \<noteq> texts p ! i" and nd: "\<not> isDeleting inst"
        by (auto simp: typing_effect_def Let_def full split: if_splits)
      have lt: "length (currentText inst) < length (texts p ! i)"
        using proper_prefix_length[OF pre ne] .
      have "prefix (take (length (currentText inst) + 1) (texts p ! i)) (texts p ! i)"
        by (rule take_is_prefix)
      then show ?thesis using Some cd TypingTimeout m i lt nd
        by (auto simp: typing_step_def run_callback_def typing_inv_iff full full')
    next
      case DeletingTimeout
      from eff DeletingTimeout have ne: "currentText inst \<noteq> []" and del: "isDeleting inst"
        by (auto simp: typing_effect_def Let_def full split: if_splits)
      have "prefix (take (length (currentText inst) - 1) (currentText inst)) (currentText inst)"
        by (rule take_is_prefix)
      then have "prefix (take (length (currentText inst) - 1) (currentText inst)) (texts p ! i)"
        using pre by (rule prefix_order.trans)
      moreover have "0 < length (currentText inst)" using ne by simp
      ultimately show ?thesis using Some cd DeletingTimeout m i del
        by (auto simp: typing_step_def run_callback_def typing_inv_iff)
    qed
  qed
qed

lemma typing_run_inv:
  assumes "texts p \<noteq> []"
  shows "\<exists>inst. typing_run p n = Inr inst \<and> typing_inv p inst"
proof (induction n)
  case 0
  then show ?case using typing_inv_initial[OF assms] by simp
next
  case (Suc n)
  then obtain inst where r: "typing_run p n = Inr inst" and inv: "typing_inv p inst" by blast
  from typing_step_inv[OF inv] obtain inst' where
    "typing_step p inst = Inr inst'" "typing_inv p inst'" by blast
  then show ?case using r by simp
qed

text \<open>
  Claim C5 (typing prefix invariant). For a non-empty list, every state that the
  animator reaches from index 0 and the empty text, by any number of transitions, has
  its index in range and renders a prefix of the text at that index; the next transition
  succeeds; when it is the typing timer that fires the text grows by exactly one
  character, when it is the deleting timer it shrinks by exactly one; and no transition
  shortens the text while typing or lengthens it while deleting.
\<close>

theorem typing_prefix_invariant:
  assumes "texts p \<noteq> []"
  shows "\<exists>inst i inst'.
     typing_run p n = Inr inst \<and> typing_run p (Suc n) = Inr inst' \<and>
     currentTextIndex inst = Some i \<and> i < length (texts p) \<and>
     prefix (currentText inst) (texts p ! i) \<and>
     (\<forall>d. pending_timeout inst = Some (TypingTimeout, d) \<longrightarrow>
        length (currentText inst') = length (currentText inst) + 1) \<and>
     (\<forall>d. pending_timeout inst = Some (DeletingTimeout, d) \<longrightarrow>
        length (currentText inst') + 1 = length (currentText inst)) \<and>
     (\<not> isDeleting inst \<longrightarrow> length (currentText inst) \<le> length (currentText inst')) \<and>
     (isDeleting inst \<longrightarrow> length (currentText inst') \<le> length (currentText inst))"
proof -
  from typing_run_inv[OF assms, of n] obtain inst where
    r: "typing_run p n = Inr inst" and inv: "typing_inv p inst" by blast
  from inv obtain i where i: "currentTextIndex inst = Some i" "i < length (texts p)"
    "prefix (currentText inst) (texts p ! i)"
    by (auto simp: typing_inv_iff)
  from typing_step_inv[OF inv] obtain inst' where s: "typing_step p inst = Inr inst'"
    and t: "\<forall>d. pending_timeout inst = Some (TypingTimeout, d) \<longrightarrow>
        length (currentText inst') = length (currentText inst) + 1"
      "\<forall>d. pending_timeout inst = Some (DeletingTimeout, d) \<longrightarrow>
        length (currentText inst') + 1 = length (currentText inst)"
      "\<not> isDeleting inst \<longrightarrow> length (currentText inst) \<le> length (currentText inst')"
      "isDeleting inst \<longrightarrow> length (currentText inst') \<le> length (currentText inst)"
    by blast
  have "typing_run p (Suc n) = Inr inst'" using r s by simp
  with r i t show ?thesis by blast
qed

theorem typing_prefix_invariant_witness:
  "texts \<lparr>texts = [''A'', ''BB''], typingSpeed = Num 100, deletingSpeed = Num 50,
           pauseDuration = Num 2000\<rparr> \<noteq> [] \<and>
   (\<exists>inst i inst'.
     typing_run \<lparr>texts = [''A'', ''BB''], typingSpeed = Num 100, deletingSpeed = Num 50,
           pauseDuration = Num 2000\<rparr> 11 = Inr inst \<and>
     typing_run \<lparr>texts = [''A'', ''BB''], typingSpeed = Num 100, deletingSpeed = Num 50,
           pauseDuration = Num 2000\<rparr> 12 = Inr inst' \<and>
     currentTextIndex inst = Some i \<and> i < 2 \<and>
     prefix (currentText inst) ([''A'', ''BB''] ! i) \<and>
     pending_timeout inst = Some (TypingTimeout, Num 100) \<and>
     length (currentText inst') = length (currentText inst) + 1)"
proof -
  let ?p = "\<lparr>texts = [''A'', ''BB''], typingSpeed = Num 100, deletingSpeed = Num 50,
           pauseDuration = Num 2000\<rparr>"
  have ne: "texts ?p \<noteq> []" by simp
  have r: "typing_run ?p 11 = Inr \<lparr>currentTextIndex = Some 1, currentText = ''B'',
      isDeleting = False, isPaused = False, pending_timeout = Some (TypingTimeout, Num 100),
      typing_mounted = True\<rparr>"
    by code_simp
  from typing_prefix_invariant[OF ne, of 11] obtain inst i inst' where
    h: "typing_run ?p 11 = Inr inst" "typing_run ?p (Suc 11) = Inr inst'"
     "currentTextIndex inst = Some i" "i < length (texts ?p)"
     "prefix (currentText inst) (texts ?p ! i)"
     "\<forall>d. pending_timeout inst = Some (TypingTimeout, d) \<longrightarrow>
        length (currentText inst') = length (currentText inst) + 1"
    by blast
  from h(1) r have p: "pending_timeout inst = Some (TypingTimeout, Num 100)" by auto
  with h(6) have "length (currentText inst') = length (currentText inst) + 1" by blast
  with h p ne show ?thesis by auto
qed


section \<open>The typing animator on an empty list\<close>

lemma typing_run_empty_1:
  assumes "texts p = []"
  shows "typing_run p (Suc 0) =
     Inr (typing_initial\<lparr>pending_timeout := Some (TypingTimeout, typingSpeed p)\<rparr>)"
  using assms
  by (simp add: typing_step_def typing_initial_def run_effect_def typing_effect_def texts_at_def Let_def)

lemma typing_run_empty_2:
  assumes "texts p = []"
  shows "typing_run p (Suc (Suc 0)) =
     Inl (TypeError ''Cannot read properties of undefined (reading 'slice')'')"
proof -
  have "typing_run p (Suc (Suc 0)) =
      typing_step p (typing_initial\<lparr>pending_timeout := Some (TypingTimeout, typingSpeed p)\<rparr>)"
    using typing_run_empty_1[OF assms] by (simp del: typing_run.simps(2) add: typing_run.simps(2)[of p "Suc 0"])
  also have "\<dots> = Inl (TypeError ''Cannot read properties of undefined (reading 'slice')'')"
    using assms by (simp add: typing_step_def typing_initial_def run_callback_def texts_at_def)
  finally show ?thesis .
qed

lemma typing_run_error_absorbing:
  "typing_run p n = Inl err \<Longrightarrow> typing_run p (n + k) = Inl err"
  by (induction k) simp_all

text \<open>
  Whatever the speeds, the animator on an empty list registers a typing timer in its
  first effect and raises the TypeError when that timer fires; no later step is made.
\<close>

lemma typing_empty_list_always_throws:
  assumes "texts p = []"
  shows "typing_run p (Suc (Suc 0) + k) =
     Inl (TypeError ''Cannot read properties of undefined (reading 'slice')'')"
  using typing_run_error_absorbing[OF typing_run_empty_2[OF assms], of k] .

text \<open>
  Claim C4 (empty list) at a failing input. With the empty list nothing is detected or
  reported at setup: the component mounts, and its first effect starts a typing timer
  (\<open>texts[0]\<close> is \<open>undefined\<close>, which differs from the empty rendered text). When
  that timer fires, its callback calls \<open>slice\<close> on \<open>undefined\<close> and throws a
  TypeError: the crash that the claim excludes.
\<close>

theorem typing_empty_list_type_error:
  "typing_run \<lparr>texts = [], typingSpeed = Num 100, deletingSpeed = Num 50,
               pauseDuration = Num 2000\<rparr> 0 =
     Inr \<lparr>currentTextIndex = Some 0, currentText = [], isDeleting = False, isPaused = False,
          pending_timeout = None, typing_mounted = True\<rparr> \<and>
   typing_run \<lparr>texts = [], typingSpeed = Num 100, deletingSpeed = Num 50,
               pauseDuration = Num 2000\<rparr> 1 =
     Inr \<lparr>currentTextIndex = Some 0, currentText = [], isDeleting = False, isPaused = False,
          pending_timeout = Some (TypingTimeout, Num 100), typing_mounted = True\<rparr> \<and>
   typing_run \<lparr>texts = [], typingSpeed = Num 100, deletingSpeed = Num 50,
               pauseDuration = Num 2000\<rparr> 2 =
     Inl (TypeError ''Cannot read properties of undefined (reading 'slice')'')"
proof -
  let ?p = "\<lparr>texts = [], typingSpeed = Num 100, deletingSpeed = Num 50,
             pauseDuration = Num 2000\<rparr>"
  have e: "texts ?p = []" by simp
  have 0: "typing_run ?p 0 = Inr typing_initial" by simp
  have 1: "typing_run ?p 1 =
      Inr (typing_initial\<lparr>pending_timeout := Some (TypingTimeout, typingSpeed ?p)\<rparr>)"
    using typing_run_empty_1[OF e] by simp
  have 2: "typing_run ?p 2 =
      Inl (TypeError ''Cannot read properties of undefined (reading 'slice')'')"
    using typing_run_empty_2[OF e] by (simp only: numeral_2_eq_2)
  show ?thesis
    unfolding 0 1 2 by (simp add: typing_initial_def)
qed

section \<open>Setup and single start of the counter\<close>

text \<open>
  Claim C9 (counter configuration), as amended. The counter validates nothing: for every
  configuration, whether \<open>end\<close> and \<open>duration\<close> are finite or not, the component
  mounts with count 0 and a connected observer, and the first visibility trigger starts
  the animation loop with one frame request, its end time being
  \<open>startTime + duration\<close> in the language's arithmetic. Setup succeeds for all valid
  configurations in particular.
\<close>

theorem counter_setup_unvalidated:
  "counter_mounted counter_mount \<and> observer counter_mount = Some False \<and>
   count counter_mount = Num 0 \<and>
   frame_requests counter_mount = [] \<and>
   intersection_callback p s [True] counter_mount =
     \<lparr>count = Num 0, hasAnimated = True, counter_mounted = True, observer = None,
      frame_requests = [\<lparr>startTime = s, endTime = js_add (Num (of_int s)) (duration p)\<rparr>]\<rparr>"
  by (simp add: started_instance) (simp add: counter_mount_eq)

text \<open>
  The claim as stated fails: with \<open>end = Infinity\<close> and \<open>duration = NaN\<close> nothing is
  rejected, the first visibility trigger requests a frame, and that frame displays
  \<open>Infinity\<close>.
\<close>

theorem counter_nonfinite_counterexample:
  "frame_requests (intersection_callback \<lparr>end' = PosInf, duration = NaN\<rparr> 0 [True] counter_mount) =
     [\<lparr>startTime = 0, endTime = NaN\<rparr>] \<and>
   count (animation_frame \<lparr>end' = PosInf, duration = NaN\<rparr> 16
           (intersection_callback \<lparr>end' = PosInf, duration = NaN\<rparr> 0 [True] counter_mount)) = PosInf"
proof -
  let ?p = "\<lparr>end' = PosInf, duration = NaN\<rparr>"
  let ?c = "\<lparr>startTime = 0, endTime = NaN\<rparr>"
  let ?i = "intersection_callback ?p 0 [True] counter_mount"
  have m: "counter_mounted ?i" and f: "frame_requests ?i = [?c]"
    by (simp_all add: started_instance js_add_def)
  have "count (animation_frame ?p 16 ?i) = PosInf"
    by (simp add: animation_frame_value[OF m f] frame_value_def js_lt_def)
  then show ?thesis using f by simp
qed

text \<open>
  Claim C6 (counter single-fire) at a failing input. One delivery of the observer with
  the entries intersecting, not intersecting, intersecting (visibility lost and regained
  before the callback runs) calls \<open>animateCounter\<close> twice: the guard reads the
  \<open>hasAnimated\<close> that its closure captured, which is false for every entry of the
  delivery, so two frame loops are requested.
\<close>

theorem counter_double_start:
  "frame_requests (intersection_callback \<lparr>end' = Num 1000, duration = Num 2000\<rparr> 0
       [True, False, True] counter_mount) =
     [\<lparr>startTime = 0, endTime = Num 2000\<rparr>, \<lparr>startTime = 0, endTime = Num 2000\<rparr>]"
  by (simp add: intersection_callback_def counter_mount_def observer_entry_def
      animateCounter_def setHasAnimated_def requestAnimationFrame_def counter_effect_def Let_def)

text \<open>
  What does hold: one delivery starts as many runs as it has intersecting entries; after
  a delivery with an intersecting entry the observer is disconnected, and a disconnected
  observer starts nothing.
\<close>

lemma observer_entries_flag:
  "counter_mounted inst \<Longrightarrow>
   counter_mounted (foldl (observer_entry p s False) inst es) \<and>
   observer (foldl (observer_entry p s False) inst es) = observer inst \<and>
   hasAnimated (foldl (observer_entry p s False) inst es) = (hasAnimated inst \<or> True \<in> set es) \<and>
   length (frame_requests (foldl (observer_entry p s False) inst es)) =
     length (frame_requests inst) + length (filter (\<lambda>b. b) es)"
proof (induction es arbitrary: inst)
  case Nil
  then show ?case by simp
next
  case (Cons b es)
  have m: "counter_mounted (observer_entry p s False inst b)"
    using Cons.prems
    by (simp add: observer_entry_def animateCounter_def setHasAnimated_def requestAnimationFrame_def)
  from Cons.IH[OF m] Cons.prems show ?case
    by (auto simp add: observer_entry_def animateCounter_def setHasAnimated_def
        requestAnimationFrame_def)
qed

lemma counter_runs_per_delivery:
  "length (frame_requests (intersection_callback p s es counter_mount)) = length (filter (\<lambda>b. b) es)"
proof -
  have m: "counter_mounted counter_mount" "observer counter_mount = Some False"
    "frame_requests counter_mount = []"
    by (simp_all add: counter_mount_eq)
  from observer_entries_flag[OF m(1), of p s es] m show ?thesis
    by (simp add: intersection_callback_def counter_effect_def Let_def)
qed

lemma counter_disconnects:
  assumes "True \<in> set es"
  shows "observer (intersection_callback p s es counter_mount) = None"
proof -
  have m: "counter_mounted counter_mount" "observer counter_mount = Some False"
    "\<not> hasAnimated counter_mount"
    by (simp_all add: counter_mount_eq)
  from observer_entries_flag[OF m(1), of p s es] m assms show ?thesis
    by (simp add: intersection_callback_def counter_effect_def Let_def)
qed

lemma counter_later_deliveries:
  "observer inst = None \<Longrightarrow> intersection_callback p t es inst = inst"
  by (simp add: intersection_callback_def)

section \<open>Teardown\<close>

text \<open>
  Claim C1 (teardown safety) at a failing input. A counter that is unmounted in the
  middle of its animation keeps its frame request: the cleanup disconnects the observer
  and cancels no frame. The callback runs in the next frame and requests itself again,
  frame after frame, until the duration has elapsed.
\<close>

theorem counter_frames_after_unmount:
  "frame_requests (counter_unmount (animation_frame \<lparr>end' = Num 1000, duration = Num 2000\<rparr> 500
       (intersection_callback \<lparr>end' = Num 1000, duration = Num 2000\<rparr> 0 [True] counter_mount))) =
     [\<lparr>startTime = 0, endTime = Num 2000\<rparr>] \<and>
   frame_requests (animation_frame \<lparr>end' = Num 1000, duration = Num 2000\<rparr> 516
     (counter_unmount (animation_frame \<lparr>end' = Num 1000, duration = Num 2000\<rparr> 500
       (intersection_callback \<lparr>end' = Num 1000, duration = Num 2000\<rparr> 0 [True] counter_mount)))) =
     [\<lparr>startTime = 0, endTime = Num 2000\<rparr>] \<and>
   frame_requests (animation_frame \<lparr>end' = Num 1000, duration = Num 2000\<rparr> 2000
     (counter_unmount (animation_frame \<lparr>end' = Num 1000, duration = Num 2000\<rparr> 500
       (intersection_callback \<lparr>end' = Num 1000, duration = Num 2000\<rparr> 0 [True] counter_mount)))) = []"
proof -
  let ?p = "\<lparr>end' = Num 1000, duration = Num 2000\<rparr>"
  let ?c = "\<lparr>startTime = 0, endTime = Num 2000\<rparr>"
  let ?i = "intersection_callback ?p 0 [True] counter_mount"
  let ?u = "counter_unmount (animation_frame ?p 500 ?i)"
  have f0: "frame_requests ?i = [?c]" by (simp add: started_instance)
  have f1: "frame_requests ?u = [?c]"
    by (simp add: counter_unmount_def animation_frame_requests[OF f0])
  have "frame_requests (animation_frame ?p 516 ?u) = [?c]"
    and "frame_requests (animation_frame ?p 2000 ?u) = []"
    by (simp_all add: animation_frame_requests[OF f1])
  then show ?thesis using f1 by simp
qed

text \<open>
  The calls of \<open>setCount\<close> that these callbacks make find the component unmounted and
  leave the count as it is.
\<close>

lemma counter_calls_after_unmount:
  "\<not> counter_mounted (counter_unmount inst) \<and>
   count (animation_frame p t (counter_unmount inst)) = count inst"
proof -
  have "\<And>i. \<not> counter_mounted i \<Longrightarrow>
      \<not> counter_mounted (foldl (\<lambda>i c. updateCounter p c t i) i cs) \<and>
      count (foldl (\<lambda>i c. updateCounter p c t i) i cs) = count i" for cs
  proof (induction cs)
    case Nil
    then show ?case by simp
  next
    case (Cons c cs)
    have "\<not> counter_mounted (updateCounter p c t i)" "count (updateCounter p c t i) = count i"
      using Cons.prems
      by (simp_all add: updateCounter_def setCount_def requestAnimationFrame_def Let_def)
    with Cons.IH[of "updateCounter p c t i"] show ?case by simp
  qed
  from this[of "(counter_unmount inst)\<lparr>frame_requests := []\<rparr>" "frame_requests (counter_unmount inst)"]
  show ?thesis by (simp add: animation_frame_def counter_unmount_def)
qed

text \<open>
  The two other hooks do revoke what they registered: the typing animator's cleanup
  clears its timer, after which no transition happens, and the tilt hook's cleanup
  removes both listeners, after which no pointer event changes the element.
\<close>

lemma typing_teardown:
  "pending_timeout (typing_unmount inst) = None \<and>
   typing_step p (typing_unmount inst) = Inr (typing_unmount inst)"
  by (simp add: typing_unmount_def typing_step_def)

lemma tilt_teardown:
  "dispatch_mousemove opts rect e (useTilt_cleanup element) = useTilt_cleanup element \<and>
   dispatch_mouseleave opts (useTilt_cleanup element) = useTilt_cleanup element"
  by (simp add: dispatch_mousemove_def dispatch_mouseleave_def useTilt_cleanup_def)

end
